theory Spec2Isabelle
  imports Complex_Main "HOL-Library.Word"
begin

section \<open>The buffered reader the decoders sit on\<close>

text \<open>
  The decoders of package goseq read through a \<^verbatim>\<open>bufio.Reader\<close> created by
  \<^verbatim>\<open>bufio.NewReader\<close>, whose buffer holds 4096 bytes. The reader is modelled by the
  bytes it has not handed out yet (buffered or still in the underlying stream) and by
  the error the underlying stream reports once those bytes are used up: end of file,
  or a read failure. Byte slices are values here; the decoders never read a slice
  after the next read call has overwritten the buffer it points into.
\<close>

datatype error = ErrNotStarted | EOF | ErrBufferFull | ErrRead | ErrOpen | ErrNotFastq

datatype panic =
  SliceBoundsOutOfRange | DivideByZero | MakeLenOutOfRange | NilDereference | Fatal error

record bufio_Reader =
  unread :: string
  broken :: bool

definition defaultBufSize :: nat where
  "defaultBufSize = 4096"

definition readErr :: "bufio_Reader \<Rightarrow> error" where
  "readErr r = (if broken r then ErrRead else EOF)"

definition stream_of :: "string \<Rightarrow> bufio_Reader" where
  "stream_of bs = \<lparr>unread = bs, broken = False\<rparr>"

text \<open>\<^verbatim>\<open>Peek(1)\<close>: the next byte without consuming it, or no byte and the stream's error.\<close>

definition Peek1 :: "bufio_Reader \<Rightarrow> string \<times> error option" where
  "Peek1 r = (case unread r of [] \<Rightarrow> ([], Some (readErr r)) | c # cs \<Rightarrow> ([c], None))"

text \<open>
  \<^verbatim>\<open>ReadBytes(delim)\<close>: everything up to and including the first delimiter, whatever
  its length; without a delimiter, all the remaining bytes and the stream's error.
\<close>

definition ReadBytes :: "char \<Rightarrow> bufio_Reader \<Rightarrow> string \<times> error option \<times> bufio_Reader" where
  "ReadBytes delim r =
     (let u = unread r in
      if delim \<in> set u
      then (takeWhile (\<lambda>c. c \<noteq> delim) u @ [delim], None,
            r\<lparr>unread := tl (dropWhile (\<lambda>c. c \<noteq> delim) u)\<rparr>)
      else (u, Some (readErr r), r\<lparr>unread := []\<rparr>))"

text \<open>
  \<^verbatim>\<open>ReadSlice(delim)\<close>: as \<^verbatim>\<open>ReadBytes\<close> while the delimiter lies within one
  buffer; when the buffer fills first, the full buffer and \<^verbatim>\<open>ErrBufferFull\<close>.
\<close>

definition ReadSlice :: "char \<Rightarrow> bufio_Reader \<Rightarrow> string \<times> error option \<times> bufio_Reader" where
  "ReadSlice delim r =
     (let u = unread r in
      if delim \<in> set (take defaultBufSize u)
      then (takeWhile (\<lambda>c. c \<noteq> delim) u @ [delim], None,
            r\<lparr>unread := tl (dropWhile (\<lambda>c. c \<noteq> delim) u)\<rparr>)
      else if length u < defaultBufSize
      then (u, Some (readErr r), r\<lparr>unread := []\<rparr>)
      else (take defaultBufSize u, Some ErrBufferFull, r\<lparr>unread := drop defaultBufSize u\<rparr>))"

text \<open>\<^verbatim>\<open>Discard(n)\<close>: skips n bytes, or the bytes that are left and the stream's error.\<close>

definition Discard :: "nat \<Rightarrow> bufio_Reader \<Rightarrow> nat \<times> error option \<times> bufio_Reader" where
  "Discard n r =
     (let u = unread r in
      if n \<le> length u then (n, None, r\<lparr>unread := drop n u\<rparr>)
      else (length u, Some (readErr r), r\<lparr>unread := []\<rparr>))"

section \<open>The FASTA decoder\<close>

record fastFastaReader =
  br :: bufio_Reader
  lastErr :: "error option"
  identifierBytes :: string
  lastBytes :: string
  fileClosed :: bool

text \<open>
  \<^verbatim>\<open>fastFastqReader\<close> has the fields of \<^verbatim>\<open>fastFastaReader\<close> and \<^verbatim>\<open>lastSeqLen\<close>.
\<close>

record fastFastqReader = fastFastaReader +
  lastSeqLen :: nat

datatype Reader = Fasta fastFastaReader | Fastq fastFastqReader

definition fastqOpenFrom :: "fastFastaReader \<Rightarrow> Reader option \<times> error option" where
  "fastqOpenFrom f =
     (Some (Fastq \<lparr>br = br f, lastErr = lastErr f, identifierBytes = [], lastBytes = [],
                   fileClosed = False, lastSeqLen = 0\<rparr>), None)"

text \<open>
  The reader values that \<^verbatim>\<open>Open\<close> and \<^verbatim>\<open>OpenFastq\<close> build around the buffered reader
  before they look at the first byte.
\<close>

definition new_fastFastaReader :: "bufio_Reader \<Rightarrow> fastFastaReader" where
  "new_fastFastaReader r =
     \<lparr>br = r, lastErr = Some ErrNotStarted, identifierBytes = [], lastBytes = [],
      fileClosed = False\<rparr>"

definition new_fastFastqReader :: "bufio_Reader \<Rightarrow> fastFastqReader" where
  "new_fastFastqReader r =
     \<lparr>br = r, lastErr = Some ErrNotStarted, identifierBytes = [], lastBytes = [],
      fileClosed = False, lastSeqLen = 0\<rparr>"

text \<open>
  \<^verbatim>\<open>Open\<close>. Its argument is what \<^verbatim>\<open>os.Open\<close> and the decompressor chosen by the
  file's suffix produced: an error, returned as it is with no reader, or the byte
  stream that \<^verbatim>\<open>bufio.NewReader\<close> wraps.
\<close>

definition Open :: "error + bufio_Reader \<Rightarrow> Reader option \<times> error option" where
  "Open src =
     (case src of
        Inl e \<Rightarrow> (None, Some e)
      | Inr r \<Rightarrow>
          (let f = new_fastFastaReader r;
               (bb, err) = Peek1 r
           in if length bb \<noteq> 1 then (Some (Fasta f), err)
              else if hd bb = CHR ''@'' then fastqOpenFrom f
              else (Some (Fasta f), err)))"

definition OpenFastq :: "error + bufio_Reader \<Rightarrow> Reader option \<times> error option" where
  "OpenFastq src =
     (case src of
        Inl e \<Rightarrow> (None, Some e)
      | Inr r \<Rightarrow>
          (let f = new_fastFastqReader r;
               (bb, err) = Peek1 r
           in if length bb \<noteq> 1 then (Some (Fastq f), err)
              else if hd bb \<noteq> CHR ''@'' then (None, Some ErrNotFastq)
              else (Some (Fastq f), err)))"

text \<open>
  What \<^verbatim>\<open>Open(filename)\<close> does before it looks at the first byte. \<^verbatim>\<open>os.Open\<close> gives an
  error or the file, here its bytes. For a name ending in \<open>.gz\<close> the stream is what
  \<^verbatim>\<open>gzip.NewReader\<close> returns, and its error is returned with no reader; for a name
  ending in \<open>.bz2\<close> it is what \<^verbatim>\<open>bzip2.NewReader\<close> returns; otherwise the file itself.
  \<^verbatim>\<open>gzip.NewReader\<close> reads the ten bytes of the gzip header before it returns, and on a
  file with no bytes that read fails with \<^verbatim>\<open>io.EOF\<close>. What the two decompressors make
  of other contents is left open: \<open>inflate\<close> and \<open>bunzip\<close> are parameters.
\<close>

definition HasSuffix :: "string \<Rightarrow> string \<Rightarrow> bool" where
  "HasSuffix s suffix =
     (length suffix \<le> length s \<and> drop (length s - length suffix) s = suffix)"

definition gzip_NewReader ::
  "(string \<Rightarrow> error + bufio_Reader) \<Rightarrow> string \<Rightarrow> error + bufio_Reader" where
  "gzip_NewReader inflate content = (if content = [] then Inl EOF else inflate content)"

definition open_source ::
  "(string \<Rightarrow> error + bufio_Reader) \<Rightarrow> (string \<Rightarrow> bufio_Reader) \<Rightarrow> string \<Rightarrow> error + string
     \<Rightarrow> error + bufio_Reader" where
  "open_source inflate bunzip filename file =
     (case file of
        Inl err \<Rightarrow> Inl err
      | Inr content \<Rightarrow>
          (case (if HasSuffix filename ''.gz'' then gzip_NewReader inflate content
                 else Inr (stream_of content)) of
             Inl err \<Rightarrow> Inl err
           | Inr r \<Rightarrow> Inr (if HasSuffix filename ''.bz2'' then bunzip content else r)))"

definition Open_filename ::
  "(string \<Rightarrow> error + bufio_Reader) \<Rightarrow> (string \<Rightarrow> bufio_Reader) \<Rightarrow> string \<Rightarrow> error + string
     \<Rightarrow> Reader option \<times> error option" where
  "Open_filename inflate bunzip filename file = Open (open_source inflate bunzip filename file)"

definition fasta_Next :: "fastFastaReader \<Rightarrow> bool \<times> fastFastaReader" where
  "fasta_Next f =
     (let f1 = (if lastErr f = Some ErrNotStarted
                then (case ReadBytes CHR ''\<newline>'' (br f) of
                        (l, e, r) \<Rightarrow> f\<lparr>br := r, identifierBytes := l, lastErr := e\<rparr>)
                else f)
      in if lastErr f1 = Some EOF then (False, f1\<lparr>fileClosed := True\<rparr>)
         else if lastErr f1 \<noteq> None then (False, f1)
         else if length (identifierBytes f1) = 0 then (False, f1)
         else (hd (identifierBytes f1) = CHR ''>'', f1))"

definition fasta_Err :: "fastFastaReader \<Rightarrow> error option" where
  "fasta_Err f = lastErr f"

text \<open>
  \<^verbatim>\<open>Identifier\<close> slices \<^verbatim>\<open>identifierBytes[1 : len-1]\<close>; Go panics when the slice
  has fewer than two bytes.
\<close>

definition fasta_Identifier :: "fastFastaReader \<Rightarrow> panic + string" where
  "fasta_Identifier f =
     (if length (identifierBytes f) < 2 then Inl SliceBoundsOutOfRange
      else Inr (butlast (tl (identifierBytes f))))"

lemma ReadSlice_le:
  "ReadSlice d r = (l, e, r') \<Longrightarrow> length (unread r') \<le> length (unread r)"
  using length_dropWhile_le [of "\<lambda>c. c \<noteq> d" "unread r"]
  by (auto simp: ReadSlice_def Let_def split: if_splits)

lemma ReadSlice_less:
  assumes "ReadSlice d r = (l, e, r')" and "e = None \<or> e = Some ErrBufferFull" and "l \<noteq> []"
  shows "length (unread r') < length (unread r)"
proof (cases "d \<in> set (take defaultBufSize (unread r))")
  case True
  then have "d \<in> set (unread r)"
    by (meson in_set_takeD)
  then obtain x xs where dw: "dropWhile (\<lambda>c. c \<noteq> d) (unread r) = x # xs"
    by (cases "dropWhile (\<lambda>c. c \<noteq> d) (unread r)") auto
  have "length (x # xs) \<le> length (unread r)"
    using length_dropWhile_le [of "\<lambda>c. c \<noteq> d" "unread r"] by (simp only: dw)
  then have "length (tl (dropWhile (\<lambda>c. c \<noteq> d) (unread r))) < length (unread r)"
    by (simp add: dw)
  with True assms(1) show ?thesis
    by (auto simp: ReadSlice_def Let_def)
next
  case False
  with assms show ?thesis
    by (auto simp: ReadSlice_def Let_def split: if_splits)
qed

lemma ReadSlice_broken:
  "ReadSlice d r = (l, e, r') \<Longrightarrow> broken r' = broken r"
  by (auto simp: ReadSlice_def Let_def split: if_splits)

function fasta_Sequence_loop :: "fastFastaReader \<Rightarrow> string \<Rightarrow> string \<times> fastFastaReader" where
  "fasta_Sequence_loop f seq =
     (case ReadSlice CHR ''\<newline>'' (br f) of
        (l, e, r) \<Rightarrow>
          (let e' = (if e = Some ErrBufferFull then None else e);
               f1 = f\<lparr>br := r, lastBytes := l, lastErr := e'\<rparr>
           in if e' \<noteq> None then (seq, f1)
              else if length l = 0 then (seq, f1)
              else if hd l = CHR ''>'' then (seq, f1\<lparr>identifierBytes := l\<rparr>)
              else fasta_Sequence_loop f1 (seq @ butlast l)))"
  by pat_completeness auto
termination
proof (relation "measure (\<lambda>(f, seq). length (unread (br f)))", goal_cases)
  case 1
  show ?case by simp
next
  case prems: 2
  from prems(1) [symmetric] prems(2-) show ?case
    by (auto split: if_splits intro: ReadSlice_less)
qed

definition fasta_Sequence :: "fastFastaReader \<Rightarrow> string \<times> fastFastaReader" where
  "fasta_Sequence f = fasta_Sequence_loop f []"

lemma ReadSlice_nonempty:
  assumes "ReadSlice d r = (l, e, r')" and "e = None \<or> e = Some ErrBufferFull"
  shows "l \<noteq> []"
  using assms
  by (auto simp: ReadSlice_def Let_def readErr_def defaultBufSize_def split: if_splits)

text \<open>
  \<^verbatim>\<open>SequenceBytes\<close> calls \<^verbatim>\<open>eachbyte\<close> once per sequence byte; the model collects the
  bytes handed to the callback, in order.
\<close>

function fasta_SequenceBytes_loop ::
  "fastFastaReader \<Rightarrow> string \<Rightarrow> error option \<times> string \<times> fastFastaReader" where
  "fasta_SequenceBytes_loop f out =
     (case ReadSlice CHR ''\<newline>'' (br f) of
        (l, e, r) \<Rightarrow>
          (let e' = (if e = Some ErrBufferFull then None else e);
               f1 = f\<lparr>br := r, lastBytes := l, lastErr := e'\<rparr>
           in if 1 < length l \<and> hd l = CHR ''>'' then (None, out, f1\<lparr>identifierBytes := l\<rparr>)
              else (let out' = (if 1 < length l then out @ butlast l else out)
                    in if e' = Some EOF then (None, out', f1)
                       else if e' \<noteq> None then (e', out', f1)
                       else fasta_SequenceBytes_loop f1 out')))"
  by pat_completeness auto
termination
proof (relation "measure (\<lambda>(f, out). length (unread (br f)))", goal_cases)
  case 1
  show ?case by simp
next
  case prems: 2
  from prems(1) [symmetric] prems(2-) show ?case
    by (auto split: if_splits intro: ReadSlice_less dest: ReadSlice_nonempty)
qed

definition fasta_SequenceBytes :: "fastFastaReader \<Rightarrow> error option \<times> string \<times> fastFastaReader" where
  "fasta_SequenceBytes f = fasta_SequenceBytes_loop f []"

section \<open>The FASTQ decoder\<close>

lemma ReadBytes_le:
  "ReadBytes d r = (l, e, r') \<Longrightarrow> length (unread r') \<le> length (unread r)"
  using length_dropWhile_le [of "\<lambda>c. c \<noteq> d" "unread r"]
  by (auto simp: ReadBytes_def Let_def split: if_splits)

lemma ReadBytes_less:
  assumes "ReadBytes d r = (l, e, r')" and "e = None"
  shows "length (unread r') < length (unread r)"
proof -
  from assms have mem: "d \<in> set (unread r)"
    and r': "unread r' = tl (dropWhile (\<lambda>c. c \<noteq> d) (unread r))"
    by (auto simp: ReadBytes_def Let_def split: if_splits)
  from mem obtain x xs where dw: "dropWhile (\<lambda>c. c \<noteq> d) (unread r) = x # xs"
    by (cases "dropWhile (\<lambda>c. c \<noteq> d) (unread r)") auto
  have "length (x # xs) \<le> length (unread r)"
    using length_dropWhile_le [of "\<lambda>c. c \<noteq> d" "unread r"] by (simp only: dw)
  then show ?thesis
    by (simp add: r' dw)
qed

text \<open>The loop of \<^verbatim>\<open>Next\<close> that discards the quality scores.\<close>

function fastq_discard_loop :: "fastFastqReader \<Rightarrow> fastFastqReader" where
  "fastq_discard_loop f =
     (if 0 < lastSeqLen f \<and> lastErr f = None
      then (case Discard (lastSeqLen f) (br f) of
              (skipped, e, r) \<Rightarrow>
                fastq_discard_loop (f\<lparr>br := r, lastErr := e, lastSeqLen := lastSeqLen f - skipped\<rparr>))
      else f)"
  by pat_completeness auto
termination
proof (relation "measure (\<lambda>f. if lastErr f = None then lastSeqLen f else 0)", goal_cases)
  case 1
  show ?case by simp
next
  case prems: 2
  from prems(2) [symmetric] prems(1,3-) show ?case
    by (auto simp: Discard_def Let_def split: if_splits)
qed

text \<open>The loop of \<^verbatim>\<open>Next\<close> that reads on until a line starts with the header marker.\<close>

function fastq_resync_loop :: "fastFastqReader \<Rightarrow> fastFastqReader" where
  "fastq_resync_loop f =
     (if 0 < length (identifierBytes f) \<and> hd (identifierBytes f) \<noteq> CHR ''@'' \<and> lastErr f = None
      then (case ReadBytes CHR ''\<newline>'' (br f) of
              (l, e, r) \<Rightarrow> fastq_resync_loop (f\<lparr>br := r, identifierBytes := l, lastErr := e\<rparr>))
      else f)"
  by pat_completeness auto
termination
proof (relation "measure (\<lambda>f. length (unread (br f)) +
    (if lastErr f = None \<and> identifierBytes f \<noteq> [] then 1 else 0))", goal_cases)
  case 1
  show ?case by simp
next
  case prems: 2
  from prems(2) [symmetric] prems(1,3-) show ?case
    by (auto split: if_splits dest: ReadBytes_less ReadBytes_le)
qed

definition fastq_Next_result :: "fastFastqReader \<Rightarrow> bool \<times> fastFastqReader" where
  "fastq_Next_result f =
     (if length (identifierBytes f) = 0 then (False, f)
      else (hd (identifierBytes f) = CHR ''@'', f))"

definition fastq_Next :: "fastFastqReader \<Rightarrow> bool \<times> fastFastqReader" where
  "fastq_Next f =
     (let f1 = (if lastErr f = Some ErrNotStarted
                then (case ReadBytes CHR ''\<newline>'' (br f) of
                        (l, e, r) \<Rightarrow> f\<lparr>br := r, identifierBytes := l, lastErr := e\<rparr>)
                else f)
      in if lastErr f1 = Some EOF then (False, f1\<lparr>fileClosed := True\<rparr>)
         else if lastErr f1 \<noteq> None then (False, f1)
         else if 0 < lastSeqLen f1
         then (let f2 = fastq_discard_loop f1
               in if lastErr f2 \<noteq> None then (False, f2)
                  else (case ReadBytes CHR ''\<newline>'' (br f2) of
                          (l, e, r) \<Rightarrow>
                            fastq_Next_result
                              (fastq_resync_loop (f2\<lparr>br := r, identifierBytes := l, lastErr := e\<rparr>))))
         else fastq_Next_result f1)"

definition fastq_Err :: "fastFastqReader \<Rightarrow> error option" where
  "fastq_Err f = lastErr f"

definition fastq_Identifier :: "fastFastqReader \<Rightarrow> panic + string" where
  "fastq_Identifier f =
     (if length (identifierBytes f) < 2 then Inl SliceBoundsOutOfRange
      else Inr (butlast (tl (identifierBytes f))))"

function fastq_Sequence_loop :: "fastFastqReader \<Rightarrow> string \<Rightarrow> string \<times> fastFastqReader" where
  "fastq_Sequence_loop f seq =
     (case ReadSlice CHR ''\<newline>'' (br f) of
        (l, e, r) \<Rightarrow>
          (let e' = (if e = Some ErrBufferFull then None else e);
               f1 = f\<lparr>br := r, lastBytes := l, lastErr := e'\<rparr>
           in if e' \<noteq> None then (seq, f1)
              else if length l = 0 then (seq, f1)
              else if hd l = CHR ''+'' then (seq, f1\<lparr>lastSeqLen := length seq\<rparr>)
              else fastq_Sequence_loop f1 (seq @ butlast l)))"
  by pat_completeness auto
termination
proof (relation "measure (\<lambda>(f, seq). length (unread (br f)))", goal_cases)
  case 1
  show ?case by simp
next
  case prems: 2
  from prems(1) [symmetric] prems(2-) show ?case
    by (auto split: if_splits intro: ReadSlice_less)
qed

definition fastq_Sequence :: "fastFastqReader \<Rightarrow> string \<times> fastFastqReader" where
  "fastq_Sequence f = fastq_Sequence_loop f []"

function fastq_SequenceBytes_loop ::
  "fastFastqReader \<Rightarrow> string \<Rightarrow> error option \<times> string \<times> fastFastqReader" where
  "fastq_SequenceBytes_loop f out =
     (case ReadSlice CHR ''\<newline>'' (br f) of
        (l, e, r) \<Rightarrow>
          (let e' = (if e = Some ErrBufferFull then None else e);
               f1 = f\<lparr>br := r, lastBytes := l, lastErr := e'\<rparr>
           in if 1 < length l \<and> hd l = CHR ''+'' then (None, out, f1)
              else (let out' = (if 1 < length l then out @ butlast l else out);
                        f2 = (if 1 < length l
                              then f1\<lparr>lastSeqLen := lastSeqLen f1 + length (butlast l)\<rparr>
                              else f1)
                    in if e' = Some EOF then (None, out', f2)
                       else if e' \<noteq> None then (e', out', f2)
                       else fastq_SequenceBytes_loop f2 out')))"
  by pat_completeness auto
termination
proof (relation "measure (\<lambda>(f, out). length (unread (br f)))", goal_cases)
  case 1
  show ?case by simp
next
  case prems: 2
  from prems(1) [symmetric] prems(2-) show ?case
    by (auto split: if_splits intro: ReadSlice_less dest: ReadSlice_nonempty)
qed

definition fastq_SequenceBytes :: "fastFastqReader \<Rightarrow> error option \<times> string \<times> fastFastqReader" where
  "fastq_SequenceBytes f = fastq_SequenceBytes_loop f []"

text \<open>The methods of the \<^verbatim>\<open>Reader\<close> interface, dispatched on the decoder behind it.\<close>

fun Next :: "Reader \<Rightarrow> bool \<times> Reader" where
  "Next (Fasta f) = (case fasta_Next f of (b, f') \<Rightarrow> (b, Fasta f'))"
| "Next (Fastq f) = (case fastq_Next f of (b, f') \<Rightarrow> (b, Fastq f'))"

fun Err :: "Reader \<Rightarrow> error option" where
  "Err (Fasta f) = fasta_Err f"
| "Err (Fastq f) = fastq_Err f"

fun Identifier_of :: "Reader \<Rightarrow> panic + string" where
  "Identifier_of (Fasta f) = fasta_Identifier f"
| "Identifier_of (Fastq f) = fastq_Identifier f"

fun Sequence_of :: "Reader \<Rightarrow> string \<times> Reader" where
  "Sequence_of (Fasta f) = (case fasta_Sequence f of (s, f') \<Rightarrow> (s, Fasta f'))"
| "Sequence_of (Fastq f) = (case fastq_Sequence f of (s, f') \<Rightarrow> (s, Fastq f'))"

section \<open>Progress of the decoder loops\<close>

declare fasta_Sequence_loop.simps [simp del]
declare fastq_Sequence_loop.simps [simp del]

lemma ReadSlice_err:
  "ReadSlice d r = (l, e, r') \<Longrightarrow> e \<noteq> Some ErrNotStarted"
  by (auto simp: ReadSlice_def Let_def readErr_def split: if_splits)

lemma fasta_Sequence_loop_stop:
  assumes "ReadSlice CHR ''\<newline>'' (br f) = (l, Some e, r)" and "e \<noteq> ErrBufferFull"
  shows "fasta_Sequence_loop f acc = (acc, f\<lparr>br := r, lastBytes := l, lastErr := Some e\<rparr>)"
  using assms by (simp add: fasta_Sequence_loop.simps [of f acc])

lemma fasta_Sequence_loop_header:
  assumes "ReadSlice CHR ''\<newline>'' (br f) = (l, e, r)" and "e = None \<or> e = Some ErrBufferFull"
    and "l \<noteq> []" and "hd l = CHR ''>''"
  shows "fasta_Sequence_loop f acc =
    (acc, f\<lparr>br := r, lastBytes := l, lastErr := None, identifierBytes := l\<rparr>)"
  using assms by (auto simp: fasta_Sequence_loop.simps [of f acc])

lemma fasta_Sequence_loop_cont:
  assumes "ReadSlice CHR ''\<newline>'' (br f) = (l, e, r)" and "e = None \<or> e = Some ErrBufferFull"
    and "l \<noteq> []" and "hd l \<noteq> CHR ''>''"
  shows "fasta_Sequence_loop f acc =
    fasta_Sequence_loop (f\<lparr>br := r, lastBytes := l, lastErr := None\<rparr>) (acc @ butlast l)"
  using assms by (auto simp: fasta_Sequence_loop.simps [of f acc])

lemma fasta_Sequence_loop_progress:
  "fasta_Sequence_loop f acc = (seq, f2) \<Longrightarrow>
     lastErr f2 \<noteq> Some ErrNotStarted \<and>
     (lastErr f2 = None \<longrightarrow> length (unread (br f2)) < length (unread (br f)))"
proof (induction "length (unread (br f))" arbitrary: f acc rule: less_induct)
  case less
  obtain l e r where rs: "ReadSlice CHR ''\<newline>'' (br f) = (l, e, r)"
    by (cases "ReadSlice CHR ''\<newline>'' (br f)") auto
  note ne = ReadSlice_err [OF rs]
  show ?case
  proof (cases "e = None \<or> e = Some ErrBufferFull")
    case False
    then obtain e0 where e: "e = Some e0" "e0 \<noteq> ErrBufferFull" by auto
    from fasta_Sequence_loop_stop [OF rs [unfolded e(1)] e(2), of acc] less.prems ne e
    show ?thesis by auto
  next
    case True
    note nonempty = ReadSlice_nonempty [OF rs True]
    note shorter = ReadSlice_less [OF rs True nonempty]
    show ?thesis
    proof (cases "hd l = CHR ''>''")
      case True
      from fasta_Sequence_loop_header [OF rs \<open>e = None \<or> e = Some ErrBufferFull\<close> nonempty True, of acc]
        less.prems shorter
      show ?thesis by auto
    next
      case False
      let ?f1 = "f\<lparr>br := r, lastBytes := l, lastErr := None\<rparr>"
      from fasta_Sequence_loop_cont [OF rs \<open>e = None \<or> e = Some ErrBufferFull\<close> nonempty False, of acc]
        less.prems
      have rec: "fasta_Sequence_loop ?f1 (acc @ butlast l) = (seq, f2)"
        by simp
      from less.hyps [OF _ rec] shorter show ?thesis
        by auto
    qed
  qed
qed

lemma fastq_Sequence_loop_stop:
  assumes "ReadSlice CHR ''\<newline>'' (br f) = (l, Some e, r)" and "e \<noteq> ErrBufferFull"
  shows "fastq_Sequence_loop f acc = (acc, f\<lparr>br := r, lastBytes := l, lastErr := Some e\<rparr>)"
  using assms by (simp add: fastq_Sequence_loop.simps [of f acc])

lemma fastq_Sequence_loop_separator:
  assumes "ReadSlice CHR ''\<newline>'' (br f) = (l, e, r)" and "e = None \<or> e = Some ErrBufferFull"
    and "l \<noteq> []" and "hd l = CHR ''+''"
  shows "fastq_Sequence_loop f acc =
    (acc, f\<lparr>br := r, lastBytes := l, lastErr := None, lastSeqLen := length acc\<rparr>)"
  using assms by (auto simp: fastq_Sequence_loop.simps [of f acc])

lemma fastq_Sequence_loop_cont:
  assumes "ReadSlice CHR ''\<newline>'' (br f) = (l, e, r)" and "e = None \<or> e = Some ErrBufferFull"
    and "l \<noteq> []" and "hd l \<noteq> CHR ''+''"
  shows "fastq_Sequence_loop f acc =
    fastq_Sequence_loop (f\<lparr>br := r, lastBytes := l, lastErr := None\<rparr>) (acc @ butlast l)"
  using assms by (auto simp: fastq_Sequence_loop.simps [of f acc])

lemma fastq_Sequence_loop_progress:
  "fastq_Sequence_loop f acc = (seq, f2) \<Longrightarrow>
     lastErr f2 \<noteq> Some ErrNotStarted \<and>
     (lastErr f2 = None \<longrightarrow> length (unread (br f2)) < length (unread (br f)))"
proof (induction "length (unread (br f))" arbitrary: f acc rule: less_induct)
  case less
  obtain l e r where rs: "ReadSlice CHR ''\<newline>'' (br f) = (l, e, r)"
    by (cases "ReadSlice CHR ''\<newline>'' (br f)") auto
  note ne = ReadSlice_err [OF rs]
  show ?case
  proof (cases "e = None \<or> e = Some ErrBufferFull")
    case False
    then obtain e0 where e: "e = Some e0" "e0 \<noteq> ErrBufferFull" by auto
    from fastq_Sequence_loop_stop [OF rs [unfolded e(1)] e(2), of acc] less.prems ne e
    show ?thesis by auto
  next
    case True
    note nonempty = ReadSlice_nonempty [OF rs True]
    note shorter = ReadSlice_less [OF rs True nonempty]
    show ?thesis
    proof (cases "hd l = CHR ''+''")
      case True
      from fastq_Sequence_loop_separator [OF rs \<open>e = None \<or> e = Some ErrBufferFull\<close> nonempty True, of acc]
        less.prems shorter
      show ?thesis by auto
    next
      case False
      let ?f1 = "f\<lparr>br := r, lastBytes := l, lastErr := None\<rparr>"
      from fastq_Sequence_loop_cont [OF rs \<open>e = None \<or> e = Some ErrBufferFull\<close> nonempty False, of acc]
        less.prems
      have rec: "fastq_Sequence_loop ?f1 (acc @ butlast l) = (seq, f2)"
        by simp
      from less.hyps [OF _ rec] shorter show ?thesis
        by auto
    qed
  qed
qed

declare fastq_discard_loop.simps [simp del]
declare fastq_resync_loop.simps [simp del]

lemma fastq_discard_loop_eq:
  "fastq_discard_loop f =
     (if 0 < lastSeqLen f \<and> lastErr f = None
      then (if lastSeqLen f \<le> length (unread (br f))
            then f\<lparr>br := (br f)\<lparr>unread := drop (lastSeqLen f) (unread (br f))\<rparr>,
                   lastErr := None, lastSeqLen := 0\<rparr>
            else f\<lparr>br := (br f)\<lparr>unread := []\<rparr>, lastErr := Some (readErr (br f)),
                   lastSeqLen := lastSeqLen f - length (unread (br f))\<rparr>)
      else f)"
  by (subst fastq_discard_loop.simps, subst fastq_discard_loop.simps)
     (simp add: Discard_def Let_def)

lemma fastq_discard_loop_le:
  "length (unread (br (fastq_discard_loop f))) \<le> length (unread (br f))"
  by (simp add: fastq_discard_loop_eq)

lemma fastq_resync_loop_le:
  "length (unread (br (fastq_resync_loop f))) \<le> length (unread (br f))"
proof (induction f rule: fastq_resync_loop.induct)
  case (1 f)
  show ?case
  proof (cases "0 < length (identifierBytes f) \<and> hd (identifierBytes f) \<noteq> CHR ''@'' \<and> lastErr f = None")
    case False
    then show ?thesis by (subst fastq_resync_loop.simps) auto
  next
    case True
    obtain l e r where rb: "ReadBytes CHR ''\<newline>'' (br f) = (l, e, r)"
      by (cases "ReadBytes CHR ''\<newline>'' (br f)") auto
    from "1.IH" [OF True rb [symmetric] refl] ReadBytes_le [OF rb] True rb
    show ?thesis
      by (subst fastq_resync_loop.simps) auto
  qed
qed

lemma fasta_Next_True:
  assumes "fasta_Next f = (True, f1)"
  shows "(lastErr f = None \<or> lastErr f = Some ErrNotStarted) \<and>
         length (unread (br f1)) \<le> length (unread (br f))"
proof (cases "lastErr f = Some ErrNotStarted")
  case False
  with assms show ?thesis
    by (auto simp: fasta_Next_def Let_def split: if_splits)
next
  case True
  obtain l e r where rb: "ReadBytes CHR ''\<newline>'' (br f) = (l, e, r)"
    by (cases "ReadBytes CHR ''\<newline>'' (br f)") auto
  from assms True rb ReadBytes_le [OF rb] show ?thesis
    by (auto simp: fasta_Next_def Let_def split: if_splits)
qed

lemma fastq_Next_True:
  assumes "fastq_Next f = (True, f1)"
  shows "(lastErr f = None \<or> lastErr f = Some ErrNotStarted) \<and>
         length (unread (br f1)) \<le> length (unread (br f))"
proof -
  define g where "g = (if lastErr f = Some ErrNotStarted
                then (case ReadBytes CHR ''\<newline>'' (br f) of
                        (l, e, r) \<Rightarrow> f\<lparr>br := r, identifierBytes := l, lastErr := e\<rparr>)
                else f)"
  have g_le: "length (unread (br g)) \<le> length (unread (br f))"
    by (cases "ReadBytes CHR ''\<newline>'' (br f)") (auto simp: g_def dest: ReadBytes_le)
  have g_err: "lastErr g = None \<Longrightarrow> lastErr f = None \<or> lastErr f = Some ErrNotStarted"
    by (auto simp: g_def split: if_splits)
  from assms have ok: "lastErr g = None"
    by (auto simp: fastq_Next_def Let_def g_def [symmetric] split: if_splits)
  show ?thesis
  proof (cases "0 < lastSeqLen g")
    case False
    with assms ok g_le g_err show ?thesis
      by (auto simp: fastq_Next_def Let_def g_def [symmetric] fastq_Next_result_def split: if_splits)
  next
    case True
    obtain l e r where rb: "ReadBytes CHR ''\<newline>'' (br (fastq_discard_loop g)) = (l, e, r)"
      by (cases "ReadBytes CHR ''\<newline>'' (br (fastq_discard_loop g))") auto
    let ?h = "(fastq_discard_loop g)\<lparr>br := r, identifierBytes := l, lastErr := e\<rparr>"
    from assms ok True rb have "f1 = fastq_resync_loop ?h"
      by (auto simp: fastq_Next_def Let_def g_def [symmetric] fastq_Next_result_def split: if_splits)
    then have "length (unread (br f1)) \<le> length (unread (br g))"
      using fastq_resync_loop_le [of ?h] ReadBytes_le [OF rb] fastq_discard_loop_le [of g]
      by simp
    with g_le g_err [OF ok] show ?thesis by simp
  qed
qed

section \<open>The conversion pipeline of fq2fa\<close>

record Seq =
  Identifier :: string
  Sequence :: string

text \<open>
  The loop of \<^verbatim>\<open>convertFile\<close> over one reader: while \<^verbatim>\<open>Next\<close> returns true, one record
  is built from \<^verbatim>\<open>Identifier()\<close> and then \<^verbatim>\<open>Sequence()\<close>. A panic ends the program.
\<close>

function fasta_records :: "fastFastaReader \<Rightarrow> panic + Seq list \<times> fastFastaReader" where
  "fasta_records f =
     (case fasta_Next f of
        (b, f1) \<Rightarrow>
          if \<not> b then Inr ([], f1)
          else (case fasta_Identifier f1 of
                  Inl p \<Rightarrow> Inl p
                | Inr ident \<Rightarrow>
                    (case fasta_Sequence f1 of
                       (seq, f2) \<Rightarrow>
                         (case fasta_records f2 of
                            Inl p \<Rightarrow> Inl p
                          | Inr (rs, f3) \<Rightarrow>
                              Inr (\<lparr>Identifier = ident, Sequence = seq\<rparr> # rs, f3)))))"
  by pat_completeness auto
termination
proof (relation "measure (\<lambda>f. if lastErr f = None \<or> lastErr f = Some ErrNotStarted
                                then Suc (length (unread (br f))) else 0)", goal_cases)
  case 1
  show ?case by simp
next
  case prems: 2
  then show ?case
    by (auto simp: fasta_Sequence_def dest!: fasta_Next_True [OF sym]
          fasta_Sequence_loop_progress [OF sym])
qed

function fastq_records :: "fastFastqReader \<Rightarrow> panic + Seq list \<times> fastFastqReader" where
  "fastq_records f =
     (case fastq_Next f of
        (b, f1) \<Rightarrow>
          if \<not> b then Inr ([], f1)
          else (case fastq_Identifier f1 of
                  Inl p \<Rightarrow> Inl p
                | Inr ident \<Rightarrow>
                    (case fastq_Sequence f1 of
                       (seq, f2) \<Rightarrow>
                         (case fastq_records f2 of
                            Inl p \<Rightarrow> Inl p
                          | Inr (rs, f3) \<Rightarrow>
                              Inr (\<lparr>Identifier = ident, Sequence = seq\<rparr> # rs, f3)))))"
  by pat_completeness auto
termination
proof (relation "measure (\<lambda>f. if lastErr f = None \<or> lastErr f = Some ErrNotStarted
                                then Suc (length (unread (br f))) else 0)", goal_cases)
  case 1
  show ?case by simp
next
  case prems: 2
  then show ?case
    by (auto simp: fastq_Sequence_def dest!: fastq_Next_True [OF sym]
          fastq_Sequence_loop_progress [OF sym])
qed

text \<open>
  \<^verbatim>\<open>convertFile\<close> for one file: an error from \<^verbatim>\<open>Open\<close> is a panic; after the loop an error
  other than end of file is a panic. The result is what was sent on the record channel.
\<close>

definition after_loop :: "error option \<Rightarrow> Seq list \<Rightarrow> panic + Seq list" where
  "after_loop err rs =
     (case err of None \<Rightarrow> Inr rs | Some e \<Rightarrow> if e \<noteq> EOF then Inl (Fatal e) else Inr rs)"

definition convertFile :: "error + bufio_Reader \<Rightarrow> panic + Seq list" where
  "convertFile src =
     (case Open src of
        (rdr, Some err) \<Rightarrow> Inl (Fatal err)
      | (None, None) \<Rightarrow> Inl NilDereference
      | (Some (Fasta f), None) \<Rightarrow>
          (case fasta_records f of
             Inl p \<Rightarrow> Inl p
           | Inr (rs, f') \<Rightarrow> after_loop (fasta_Err f') rs)
      | (Some (Fastq f), None) \<Rightarrow>
          (case fastq_records f of
             Inl p \<Rightarrow> Inl p
           | Inr (rs, f') \<Rightarrow> after_loop (fastq_Err f') rs))"

text \<open>
  \<^verbatim>\<open>seqWriter\<close>: the bytes written for the records received, in order. \<^verbatim>\<open>Fprintln\<close>
  writes its argument and a newline.
\<close>

function write_sequence :: "string \<Rightarrow> string" where
  "write_sequence s =
     (if 80 < length s then take 80 s @ ''\<newline>'' @ write_sequence (drop 80 s)
      else s @ ''\<newline>'')"
  by pat_completeness auto
termination
  by (relation "measure length") auto

definition write_record :: "Seq \<Rightarrow> string" where
  "write_record s = (''>'' @ Identifier s) @ ''\<newline>'' @ write_sequence (Sequence s)"

primrec seqWriter :: "Seq list \<Rightarrow> string" where
  "seqWriter [] = []"
| "seqWriter (s # ss) = write_record s @ seqWriter ss"

text \<open>
  \<^verbatim>\<open>fanWriters\<close>: the channel \<^verbatim>\<open>subs[i]\<close> is the list of records sent to it, oldest first;
  the result is the channels and the count logged at the end. \<^verbatim>\<open>make\<close> panics on a
  negative length, and \<^verbatim>\<open>idx%n\<close> on n = 0. The counter is an unbounded integer here:
  Go's 64-bit \<^verbatim>\<open>int\<close> agrees with it for fewer than \<open>2^63\<close> records.
\<close>

fun fan_loop :: "nat \<Rightarrow> Seq list \<Rightarrow> nat \<Rightarrow> Seq list list \<Rightarrow> panic + Seq list list \<times> nat" where
  "fan_loop n [] idx subs = Inr (subs, idx)"
| "fan_loop n (s # ss) idx subs =
     (if n = 0 then Inl DivideByZero
      else fan_loop n ss (idx + 1) (subs[idx mod n := subs ! (idx mod n) @ [s]]))"

definition fanWriters :: "int \<Rightarrow> Seq list \<Rightarrow> panic + Seq list list \<times> nat" where
  "fanWriters n seqChan =
     (if n < 0 then Inl MakeLenOutOfRange
      else fan_loop (nat n) seqChan 0 (replicate (nat n) []))"

section \<open>Progress\<close>

text \<open>
  \<^verbatim>\<open>Progress\<close> asks the open file for its size (\<^verbatim>\<open>Stat\<close>) and its offset (\<^verbatim>\<open>Seek\<close>), both
  64-bit signed integers or an error. The product \<^verbatim>\<open>pos*100\<close> is computed in 64 bits and
  wraps around. The two conversions to \<^verbatim>\<open>float64\<close> and the division each round to the
  nearest \<^verbatim>\<open>float64\<close>, a tie going to the even significand. A \<^verbatim>\<open>float64\<close> other than 0
  is an integer of magnitude below \<open>2^53\<close> times a power of two, so a real number of
  magnitude in \<open>[2^k, 2^(k+1))\<close> is rounded to a multiple of \<open>2^(k-52)\<close>. The exponent
  range of \<^verbatim>\<open>float64\<close> plays no part here: the integers converted have magnitude at
  most \<open>2^63\<close>, and the quotient of two of them is 0 or of magnitude between \<open>2^-63\<close> and
  \<open>2^63\<close>.
\<close>

definition round_half_even :: "real \<Rightarrow> int" where
  "round_half_even x =
     (let f = \<lfloor>x\<rfloor>; d = x - of_int f
      in if d < 1 / 2 then f else if 1 / 2 < d then f + 1 else if even f then f else f + 1)"

definition float64_round :: "real \<Rightarrow> real" where
  "float64_round x =
     (if x = 0 then 0
      else (let e = \<lfloor>log 2 \<bar>x\<bar>\<rfloor> - 52
            in of_int (round_half_even (x * 2 powr (- of_int e))) * 2 powr (of_int e)))"

definition float64_of_int64 :: "64 word \<Rightarrow> real" where
  "float64_of_int64 w = float64_round (real_of_int (sint w))"

definition float64_div :: "real \<Rightarrow> real \<Rightarrow> real" where
  "float64_div x y = float64_round (x / y)"

record os_File =
  Stat_Size :: "error + 64 word"
  Seek_Cur :: "error + 64 word"

definition fasta_Progress :: "os_File \<Rightarrow> real" where
  "fasta_Progress file =
     (case Stat_Size file of
        Inl err \<Rightarrow> - 1
      | Inr sz \<Rightarrow>
          if sint sz \<le> 0 then - 1
          else (case Seek_Cur file of
                  Inl err \<Rightarrow> - 1
                | Inr pos \<Rightarrow> float64_div (float64_of_int64 (pos * 100)) (float64_of_int64 sz)))"

definition fastq_Progress :: "os_File \<Rightarrow> real" where
  "fastq_Progress file =
     (case Stat_Size file of
        Inl err \<Rightarrow> - 1
      | Inr sz \<Rightarrow>
          if sint sz \<le> 0 then - 1
          else (case Seek_Cur file of
                  Inl err \<Rightarrow> - 1
                | Inr pos \<Rightarrow> float64_div (float64_of_int64 (pos * 100)) (float64_of_int64 sz)))"

section \<open>Vocabulary of the statements\<close>

text \<open>
  The lines of a byte string, each with its terminator; an unterminated rest is the last
  line. This is the reading of "line" that the statement about \<^verbatim>\<open>Next\<close> uses.
\<close>

fun spec_lines :: "string \<Rightarrow> string list" where
  "spec_lines [] = []"
| "spec_lines (c # cs) =
     (if c = CHR ''\<newline>'' then [c] # spec_lines cs
      else (case spec_lines cs of [] \<Rightarrow> [[c]] | l # ls \<Rightarrow> (c # l) # ls))"

text \<open>The inputs the statements below are evaluated on.\<close>

definition wrapped_quality_example :: string where
  "wrapped_quality_example =
     ''@r1\<newline>ACGT\<newline>A\<newline>+\<newline>IIII\<newline>@\<newline>@r2\<newline>GG\<newline>+\<newline>II\<newline>''"

definition empty_sequence_example :: string where
  "empty_sequence_example = ''@r1\<newline>\<newline>+\<newline>\<newline>@r2\<newline>AC\<newline>+\<newline>II\<newline>''"

text \<open>
  Stand-ins for the two decompressors in the evaluated examples: one takes every
  content for a corrupt archive, the other is \<open>stream_of\<close>, which hands the bytes on.
\<close>

definition corrupt_archive :: "string \<Rightarrow> error + bufio_Reader" where
  "corrupt_archive content = Inl ErrRead"

definition long_line_example :: string where
  "long_line_example = ''>s\<newline>'' @ replicate (Suc defaultBufSize) CHR ''A'' @ ''\<newline>''"

definition long_header_example :: "string list" where
  "long_header_example =
     [''>a'', CHR ''>'' # replicate 4095 CHR ''x'' @ replicate 80 CHR ''y'' @ ''>'']"

definition long_header_records :: "Seq list" where
  "long_header_records =
     [\<lparr>Identifier = ''a'', Sequence = []\<rparr>,
      \<lparr>Identifier = replicate 4094 CHR ''x'', Sequence = replicate 80 CHR ''y'' @ ''>''\<rparr>]"

text \<open>
  The inputs of the round-trip statement. A FASTA text is a list of lines, each written
  with its terminator. A line that starts with the marker is a header line and must fit
  into the read-ahead buffer together with its terminator; any other line is a sequence
  line and holds no marker. The first line is a header.
\<close>

definition text_of_lines :: "string list \<Rightarrow> string" where
  "text_of_lines ls = concat (map (\<lambda>l. l @ ''\<newline>'') ls)"

definition fasta_line :: "string \<Rightarrow> bool" where
  "fasta_line l =
     (CHR ''\<newline>'' \<notin> set l \<and>
      (case l of
         [] \<Rightarrow> True
       | c # cs \<Rightarrow> if c = CHR ''>'' then length l < defaultBufSize else CHR ''>'' \<notin> set cs))"

definition valid_fasta :: "string list \<Rightarrow> bool" where
  "valid_fasta ls =
     (case ls of
        [] \<Rightarrow> False
      | l # ls' \<Rightarrow> l \<noteq> [] \<and> hd l = CHR ''>'' \<and> list_all fasta_line ls)"

text \<open>
  What the proof keeps track of: the records a valid text decodes to, and the state of
  the decoder between two records.
\<close>

definition good_record :: "Seq \<Rightarrow> bool" where
  "good_record r =
     (CHR ''\<newline>'' \<notin> set (Identifier r) \<and> length (Identifier r) + 2 \<le> defaultBufSize \<and>
      CHR ''>'' \<notin> set (Sequence r) \<and> CHR ''\<newline>'' \<notin> set (Sequence r))"

definition at_header :: "fastFastaReader \<Rightarrow> bool" where
  "at_header f =
     (lastErr f = None \<and> \<not> broken (br f) \<and>
      (\<exists>h ls. identifierBytes f = h @ ''\<newline>'' \<and> h \<noteq> [] \<and> hd h = CHR ''>'' \<and> fasta_line h \<and>
              unread (br f) = text_of_lines ls \<and> list_all fasta_line ls))"

section \<open>Opening a file\<close>

lemma ReadBytes_hd:
  assumes "unread r = c # bs" and "ReadBytes d r = (l, e, r')"
  shows "l \<noteq> [] \<and> hd l = c"
  using assms(2) unfolding ReadBytes_def Let_def assms(1)
  by (auto split: if_splits)

text \<open>
  Claim C1. The claim: for every input whose first readable byte is neither \<open>>\<close> nor
  \<open>@\<close>, \<^verbatim>\<open>Open\<close> fails with a "not a recognized sequence format" error and returns
  no usable decoder. The code does otherwise: for every such input \<^verbatim>\<open>Open\<close> returns a
  FASTA decoder and a nil error, and the first \<^verbatim>\<open>Next\<close> on that decoder returns false,
  so the file reads as one with no records. (\<^verbatim>\<open>OpenFastq\<close> does reject a first byte
  other than \<open>@\<close>, see \<open>OpenFastq_rejects\<close>.)
\<close>

theorem Open_unrecognized_first_byte:
  assumes "c \<noteq> CHR ''>''" and "c \<noteq> CHR ''@''"
  shows "Open (Inr (stream_of (c # bs))) =
           (Some (Fasta (new_fastFastaReader (stream_of (c # bs)))), None)
    \<and> fst (Next (Fasta (new_fastFastaReader (stream_of (c # bs))))) = False"
proof -
  obtain l e r' where rb: "ReadBytes CHR ''\<newline>'' (stream_of (c # bs)) = (l, e, r')"
    by (cases "ReadBytes CHR ''\<newline>'' (stream_of (c # bs))") auto
  then have "l \<noteq> [] \<and> hd l = c"
    using ReadBytes_hd [OF _ rb, of c bs] by (simp add: stream_of_def)
  with assms rb show ?thesis
    by (simp add: Open_def new_fastFastaReader_def Peek1_def fasta_Next_def Let_def)
       (simp add: stream_of_def)
qed

theorem Open_unrecognized_first_byte_witness:
  "Open (Inr (stream_of ''hello\<newline>'')) =
     (Some (Fasta (new_fastFastaReader (stream_of ''hello\<newline>''))), None)
   \<and> fst (Next (Fasta (new_fastFastaReader (stream_of ''hello\<newline>'')))) = False"
  using Open_unrecognized_first_byte [of "CHR ''h''" "''ello\<newline>''"] by simp

lemma OpenFastq_rejects:
  "c \<noteq> CHR ''@'' \<Longrightarrow> OpenFastq (Inr (stream_of (c # bs))) = (None, Some ErrNotFastq)"
  by (simp add: OpenFastq_def new_fastFastqReader_def Peek1_def stream_of_def)

lemma Open_empty_stream:
  "Open (Inr (stream_of [])) = (Some (Fasta (new_fastFastaReader (stream_of []))), Some EOF)
   \<and> fst (Next (Fasta (new_fastFastaReader (stream_of [])))) = False
   \<and> Err (snd (Next (Fasta (new_fastFastaReader (stream_of []))))) = Some EOF"
  by (simp add: Open_def new_fastFastaReader_def Peek1_def stream_of_def readErr_def
        fasta_Next_def ReadBytes_def fasta_Err_def)

text \<open>
  Claim C10, as amended. The claim: for a zero-byte input file, \<^verbatim>\<open>Open\<close> returns a non-nil
  reader paired with a non-nil end-of-stream error, and \<^verbatim>\<open>Next\<close> on that reader returns
  false. What holds: for a zero-byte file whose name ends in neither \<open>.gz\<close> nor \<open>.bz2\<close>,
  \<^verbatim>\<open>Open\<close> returns a reader (the FASTA decoder) together with the end-of-file error, not
  a nil reader and not a format error, and \<^verbatim>\<open>Next\<close> on that reader returns false,
  leaving end of file as the reader's error.
\<close>

theorem Open_empty_file:
  assumes "\<not> HasSuffix filename ''.gz''" and "\<not> HasSuffix filename ''.bz2''"
  shows "Open_filename inflate bunzip filename (Inr []) =
           (Some (Fasta (new_fastFastaReader (stream_of []))), Some EOF)
    \<and> fst (Next (Fasta (new_fastFastaReader (stream_of [])))) = False
    \<and> Err (snd (Next (Fasta (new_fastFastaReader (stream_of []))))) = Some EOF"
proof -
  from assms have "open_source inflate bunzip filename (Inr []) = Inr (stream_of [])"
    by (simp add: open_source_def)
  with Open_empty_stream show ?thesis
    by (simp only: Open_filename_def)
qed

theorem Open_empty_file_witness:
  "Open_filename corrupt_archive stream_of ''empty.fa'' (Inr []) =
     (Some (Fasta (new_fastFastaReader (stream_of []))), Some EOF)
   \<and> fst (Next (Fasta (new_fastFastaReader (stream_of [])))) = False
   \<and> Err (snd (Next (Fasta (new_fastFastaReader (stream_of []))))) = Some EOF"
  using Open_empty_file [where filename = "''empty.fa''" and inflate = corrupt_archive
      and bunzip = stream_of]
  by (simp add: HasSuffix_def)

text \<open>
  Claim C10 as stated fails: for a zero-byte file named \<open>empty.gz\<close>, \<^verbatim>\<open>gzip.NewReader\<close>
  fails on the missing header and \<^verbatim>\<open>Open\<close> returns that error with a nil reader.
\<close>

theorem Open_empty_gz_file:
  "Open_filename corrupt_archive stream_of ''empty.gz'' (Inr []) = (None, Some EOF)"
  by (simp add: Open_filename_def open_source_def gzip_NewReader_def HasSuffix_def Open_def)

section \<open>The not-started error\<close>

lemma ReadBytes_err:
  "ReadBytes d r = (l, e, r') \<Longrightarrow> e \<noteq> Some ErrNotStarted"
  by (auto simp: ReadBytes_def Let_def readErr_def split: if_splits)

lemma fasta_Next_new:
  "lastErr (snd (fasta_Next (new_fastFastaReader r))) \<noteq> Some ErrNotStarted"
proof -
  obtain l e r' where rb: "ReadBytes CHR ''\<newline>'' r = (l, e, r')"
    by (cases "ReadBytes CHR ''\<newline>'' r") auto
  with ReadBytes_err [OF rb] show ?thesis
    by (simp add: fasta_Next_def new_fastFastaReader_def Let_def)
qed

lemma fastq_Next_new:
  "lastErr f = Some ErrNotStarted \<Longrightarrow> lastSeqLen f = 0 \<Longrightarrow>
   lastErr (snd (fastq_Next f)) \<noteq> Some ErrNotStarted"
proof -
  assume a: "lastErr f = Some ErrNotStarted" "lastSeqLen f = 0"
  obtain l e r' where rb: "ReadBytes CHR ''\<newline>'' (br f) = (l, e, r')"
    by (cases "ReadBytes CHR ''\<newline>'' (br f)") auto
  with ReadBytes_err [OF rb] a show ?thesis
    by (simp add: fastq_Next_def fastq_Next_result_def Let_def)
qed

lemma fasta_Sequence_err:
  "lastErr (snd (fasta_Sequence f)) \<noteq> Some ErrNotStarted"
  using fasta_Sequence_loop_progress [of f "[]" "fst (fasta_Sequence f)" "snd (fasta_Sequence f)"]
  by (simp add: fasta_Sequence_def)

lemma fastq_Sequence_err:
  "lastErr (snd (fastq_Sequence f)) \<noteq> Some ErrNotStarted"
  using fastq_Sequence_loop_progress [of f "[]" "fst (fastq_Sequence f)" "snd (fastq_Sequence f)"]
  by (simp add: fastq_Sequence_def)

text \<open>
  Claim C9, as amended. The claim: on a freshly opened decoder, calling \<^verbatim>\<open>Identifier()\<close>
  or \<^verbatim>\<open>Sequence()\<close> before the first \<^verbatim>\<open>Next()\<close> is surfaced as the not-started error, and
  \<^verbatim>\<open>Err()\<close> reports that error until the first advance. What the code does: every
  decoder returned by \<^verbatim>\<open>Open\<close> or \<^verbatim>\<open>OpenFastq\<close> has the not-started error as its
  \<^verbatim>\<open>Err()\<close>; the accessors return no error value, and the first call that reads from
  the stream, \<^verbatim>\<open>Next()\<close> or \<^verbatim>\<open>Sequence()\<close>, replaces the error.
\<close>

theorem Err_not_started_until_first_read:
  "(\<exists>rdr e. Open (Inr r) = (Some rdr, e) \<and> Err rdr = Some ErrNotStarted
      \<and> Err (snd (Next rdr)) \<noteq> Some ErrNotStarted
      \<and> Err (snd (Sequence_of rdr)) \<noteq> Some ErrNotStarted)
   \<and> (case OpenFastq (Inr r) of
         (Some rdr, e) \<Rightarrow> Err rdr = Some ErrNotStarted
            \<and> Err (snd (Next rdr)) \<noteq> Some ErrNotStarted
            \<and> Err (snd (Sequence_of rdr)) \<noteq> Some ErrNotStarted
       | (None, e) \<Rightarrow> e = Some ErrNotFastq)"
proof -
  let ?q = "\<lparr>br = r, lastErr = Some ErrNotStarted, identifierBytes = [], lastBytes = [],
      fileClosed = False, lastSeqLen = 0\<rparr>"
  have q: "Err (snd (Next (Fastq ?q))) \<noteq> Some ErrNotStarted
         \<and> Err (snd (Sequence_of (Fastq ?q))) \<noteq> Some ErrNotStarted"
    using fastq_Next_new [of ?q] fastq_Sequence_err [of ?q]
    by (simp add: fastq_Err_def case_prod_beta)
  have a: "Err (snd (Next (Fasta (new_fastFastaReader r)))) \<noteq> Some ErrNotStarted
         \<and> Err (snd (Sequence_of (Fasta (new_fastFastaReader r)))) \<noteq> Some ErrNotStarted"
    using fasta_Next_new [of r] fasta_Sequence_err [of "new_fastFastaReader r"]
    by (simp add: fasta_Err_def case_prod_beta)
  have 1: "\<exists>rdr e. Open (Inr r) = (Some rdr, e) \<and> Err rdr = Some ErrNotStarted
      \<and> Err (snd (Next rdr)) \<noteq> Some ErrNotStarted
      \<and> Err (snd (Sequence_of rdr)) \<noteq> Some ErrNotStarted"
  proof (cases "\<exists>bs. unread r = CHR ''@'' # bs")
    case True
    then have "Open (Inr r) = (Some (Fastq ?q), None)"
      by (auto simp: Open_def Peek1_def fastqOpenFrom_def new_fastFastaReader_def)
    with q show ?thesis by (simp add: fastq_Err_def)
  next
    case False
    then have "\<exists>e. Open (Inr r) = (Some (Fasta (new_fastFastaReader r)), e)"
      by (auto simp: Open_def Peek1_def split: list.splits)
    with a show ?thesis by (auto simp: fasta_Err_def new_fastFastaReader_def)
  qed
  have 2: "case OpenFastq (Inr r) of
         (Some rdr, e) \<Rightarrow> Err rdr = Some ErrNotStarted
            \<and> Err (snd (Next rdr)) \<noteq> Some ErrNotStarted
            \<and> Err (snd (Sequence_of rdr)) \<noteq> Some ErrNotStarted
       | (None, e) \<Rightarrow> e = Some ErrNotFastq"
    using q by (auto simp: OpenFastq_def Peek1_def new_fastFastqReader_def fastq_Err_def
        split: list.splits)
  from 1 2 show ?thesis by blast
qed

text \<open>
  Claim C9 as stated fails on a decoder just opened on a two-line FASTA file:
  \<^verbatim>\<open>Identifier()\<close> slices the empty identifier buffer (a runtime panic, not the
  not-started error), and \<^verbatim>\<open>Sequence()\<close> reads the header line, returns the empty
  sequence and leaves \<^verbatim>\<open>Err()\<close> nil although \<^verbatim>\<open>Next()\<close> was never called.
\<close>

theorem not_started_not_reported_by_accessors:
  "Open (Inr (stream_of ''>s1\<newline>ACGT\<newline>'')) =
     (Some (Fasta (new_fastFastaReader (stream_of ''>s1\<newline>ACGT\<newline>''))), None)
   \<and> Identifier_of (Fasta (new_fastFastaReader (stream_of ''>s1\<newline>ACGT\<newline>''))) =
       Inl SliceBoundsOutOfRange
   \<and> fst (Sequence_of (Fasta (new_fastFastaReader (stream_of ''>s1\<newline>ACGT\<newline>'')))) = []
   \<and> Err (snd (Sequence_of (Fasta (new_fastFastaReader (stream_of ''>s1\<newline>ACGT\<newline>''))))) = None"
  by code_simp

section \<open>The writer and the sharder\<close>

declare write_sequence.simps [simp del]

lemma write_sequence_lines:
  "\<exists>ls. ls \<noteq> [] \<and> concat ls = s \<and> list_all (\<lambda>l. length l = 80) (butlast ls)
        \<and> length (last ls) \<le> 80 \<and> (last ls = [] \<longleftrightarrow> s = [])
        \<and> write_sequence s = concat (map (\<lambda>l. l @ ''\<newline>'') ls)"
proof (induction s rule: write_sequence.induct)
  case (1 s)
  show ?case
  proof (cases "80 < length s")
    case False
    then have "write_sequence s = s @ ''\<newline>''"
      by (simp add: write_sequence.simps [of s])
    with False show ?thesis
      by (intro exI [of _ "[s]"]) simp
  next
    case True
    from "1.IH" [OF True] obtain ls where ls: "ls \<noteq> []" "concat ls = drop 80 s"
      "list_all (\<lambda>l. length l = 80) (butlast ls)" "length (last ls) \<le> 80"
      "last ls = [] \<longleftrightarrow> drop 80 s = []"
      "write_sequence (drop 80 s) = concat (map (\<lambda>l. l @ ''\<newline>'') ls)"
      by blast
    from True have ws: "write_sequence s = take 80 s @ ''\<newline>'' @ write_sequence (drop 80 s)"
      by (simp add: write_sequence.simps [of s])
    from True ls ws show ?thesis
      by (intro exI [of _ "take 80 s # ls"]) auto
  qed
qed

lemma seqWriter_concat: "seqWriter rs = concat (map write_record rs)"
  by (induction rs) auto

text \<open>
  Claim C6. The writer's output is the concatenation of the records' texts; a record's
  text is the marker line \<open>>\<close> + identifier, then the sequence cut into lines that are
  each followed by a newline: every line but the last has exactly 80 characters, the
  last has at most 80 (and is present even when the sequence is empty). Decoding
  \<^verbatim>\<open>">s1\nACGTACGT\n>s2\nTTTT\n"\<close> and writing the records to one output gives the
  input back.
\<close>

theorem seqWriter_format:
  "seqWriter rs = concat (map write_record rs)
   \<and> (\<exists>ls. ls \<noteq> [] \<and> concat ls = Sequence s
          \<and> list_all (\<lambda>l. length l = 80) (butlast ls)
          \<and> length (last ls) \<le> 80
          \<and> write_record s =
              ''>'' @ Identifier s @ ''\<newline>'' @ concat (map (\<lambda>l. l @ ''\<newline>'') ls))
   \<and> convertFile (Inr (stream_of ''>s1\<newline>ACGTACGT\<newline>>s2\<newline>TTTT\<newline>'')) =
       Inr [\<lparr>Identifier = ''s1'', Sequence = ''ACGTACGT''\<rparr>,
            \<lparr>Identifier = ''s2'', Sequence = ''TTTT''\<rparr>]
   \<and> seqWriter [\<lparr>Identifier = ''s1'', Sequence = ''ACGTACGT''\<rparr>,
                 \<lparr>Identifier = ''s2'', Sequence = ''TTTT''\<rparr>] =
       ''>s1\<newline>ACGTACGT\<newline>>s2\<newline>TTTT\<newline>''"
proof -
  have 1: "seqWriter rs = concat (map write_record rs)"
    by (rule seqWriter_concat)
  have 2: "\<exists>ls. ls \<noteq> [] \<and> concat ls = Sequence s
          \<and> list_all (\<lambda>l. length l = 80) (butlast ls)
          \<and> length (last ls) \<le> 80
          \<and> write_record s =
              ''>'' @ Identifier s @ ''\<newline>'' @ concat (map (\<lambda>l. l @ ''\<newline>'') ls)"
    using write_sequence_lines [of "Sequence s"] by (auto simp: write_record_def)
  have 3: "convertFile (Inr (stream_of ''>s1\<newline>ACGTACGT\<newline>>s2\<newline>TTTT\<newline>'')) =
       Inr [\<lparr>Identifier = ''s1'', Sequence = ''ACGTACGT''\<rparr>,
            \<lparr>Identifier = ''s2'', Sequence = ''TTTT''\<rparr>]"
    by code_simp
  have 4: "seqWriter [\<lparr>Identifier = ''s1'', Sequence = ''ACGTACGT''\<rparr>,
                 \<lparr>Identifier = ''s2'', Sequence = ''TTTT''\<rparr>] =
       ''>s1\<newline>ACGTACGT\<newline>>s2\<newline>TTTT\<newline>''"
    by code_simp
  from 1 2 3 4 show ?thesis by blast
qed

lemma fan_loop_snoc:
  "0 < n \<Longrightarrow> fan_loop n (ss @ [s]) idx subs =
     (case fan_loop n ss idx subs of
        Inl p \<Rightarrow> Inl p
      | Inr (subs', k) \<Rightarrow> Inr (subs'[k mod n := subs' ! (k mod n) @ [s]], k + 1))"
  by (induction ss arbitrary: idx subs) auto

lemma fan_loop_spec:
  assumes "0 < n"
  shows "\<exists>subs. fan_loop n rs 0 (replicate n []) = Inr (subs, length rs) \<and> length subs = n
    \<and> (\<forall>d<n. subs ! d = map ((!) rs) (filter (\<lambda>i. i mod n = d) [0..<length rs]))"
proof (induction rs rule: rev_induct)
  case Nil
  show ?case by simp
next
  case (snoc s rs)
  then obtain subs where subs: "fan_loop n rs 0 (replicate n []) = Inr (subs, length rs)"
    "length subs = n"
    "\<forall>d<n. subs ! d = map ((!) rs) (filter (\<lambda>i. i mod n = d) [0..<length rs])"
    by blast
  let ?k = "length rs"
  let ?subs = "subs[?k mod n := subs ! (?k mod n) @ [s]]"
  have same: "map ((!) (rs @ [s])) (filter (\<lambda>i. i mod n = d) [0..<?k]) =
              map ((!) rs) (filter (\<lambda>i. i mod n = d) [0..<?k])" for d
    by (rule map_cong) (auto simp: nth_append)
  have "\<forall>d<n. ?subs ! d = map ((!) (rs @ [s])) (filter (\<lambda>i. i mod n = d) [0..<length (rs @ [s])])"
  proof (intro allI impI)
    fix d assume d: "d < n"
    show "?subs ! d = map ((!) (rs @ [s])) (filter (\<lambda>i. i mod n = d) [0..<length (rs @ [s])])"
    proof (cases "d = ?k mod n")
      case True
      with d subs show ?thesis by (simp add: same)
    next
      case False
      with d subs show ?thesis by (simp add: same)
    qed
  qed
  with subs assms show ?case
    by (simp add: fan_loop_snoc)
qed

text \<open>
  Claim C5. For every finite sequence of records on the shared channel and every
  \<open>n \<ge> 1\<close>, \<^verbatim>\<open>fanWriters\<close> hands destination \<open>d\<close> exactly the records whose arrival
  index \<open>i\<close> (counted from zero) has \<open>i mod n = d\<close>, in arrival order, and the count it
  logs is the number of records received.
\<close>

theorem fanWriters_round_robin:
  assumes "1 \<le> n"
  shows "\<exists>subs. fanWriters n rs = Inr (subs, length rs) \<and> length subs = nat n
    \<and> (\<forall>d < nat n. subs ! d = map ((!) rs) (filter (\<lambda>i. i mod nat n = d) [0..<length rs]))"
  using assms fan_loop_spec [of "nat n" rs] by (simp add: fanWriters_def)

theorem fanWriters_round_robin_witness:
  "\<exists>subs. fanWriters 2 [\<lparr>Identifier = ''r0'', Sequence = ''A''\<rparr>,
                         \<lparr>Identifier = ''r1'', Sequence = ''C''\<rparr>,
                         \<lparr>Identifier = ''r2'', Sequence = ''G''\<rparr>,
                         \<lparr>Identifier = ''r3'', Sequence = ''T''\<rparr>] = Inr (subs, 4)
     \<and> length subs = 2
     \<and> subs ! 0 = [\<lparr>Identifier = ''r0'', Sequence = ''A''\<rparr>, \<lparr>Identifier = ''r2'', Sequence = ''G''\<rparr>]
     \<and> subs ! 1 = [\<lparr>Identifier = ''r1'', Sequence = ''C''\<rparr>, \<lparr>Identifier = ''r3'', Sequence = ''T''\<rparr>]"
proof -
  let ?rs = "[\<lparr>Identifier = ''r0'', Sequence = ''A''\<rparr>,
                         \<lparr>Identifier = ''r1'', Sequence = ''C''\<rparr>,
                         \<lparr>Identifier = ''r2'', Sequence = ''G''\<rparr>,
                         \<lparr>Identifier = ''r3'', Sequence = ''T''\<rparr>]"
  have up: "[0..<4] = [0, 1, 2, Suc 2]"
    by (simp add: upt_rec)
  from fanWriters_round_robin [of 2 ?rs] obtain subs where
    s: "fanWriters 2 ?rs = Inr (subs, length ?rs)" "length subs = nat 2"
      "\<forall>d < nat 2. subs ! d = map ((!) ?rs) (filter (\<lambda>i. i mod nat 2 = d) [0..<length ?rs])"
    by auto
  from s(3) have "subs ! 0 = map ((!) ?rs) (filter (\<lambda>i. i mod nat 2 = 0) [0..<length ?rs])"
    and "subs ! 1 = map ((!) ?rs) (filter (\<lambda>i. i mod nat 2 = 1) [0..<length ?rs])"
    by simp_all
  with s(1,2) show ?thesis
    by (simp add: up)
qed

section \<open>Rounding to float64\<close>

lemma round_half_even_of_int [simp]: "round_half_even (of_int n) = n"
  by (simp add: round_half_even_def)

lemma round_half_even_floor: "\<lfloor>x\<rfloor> \<le> round_half_even x \<and> round_half_even x \<le> \<lfloor>x\<rfloor> + 1"
  by (simp add: round_half_even_def Let_def)

lemma round_half_even_ge:
  assumes "of_int n \<le> x"
  shows "n \<le> round_half_even x"
proof -
  from assms have "n \<le> \<lfloor>x\<rfloor>"
    by (simp add: le_floor_iff)
  with round_half_even_floor [of x] show ?thesis
    by linarith
qed

lemma round_half_even_le:
  assumes "x \<le> of_int n"
  shows "round_half_even x \<le> n"
proof (cases "x = of_int n")
  case True
  then show ?thesis by simp
next
  case False
  with assms have "x < of_int n" by simp
  then have "\<lfloor>x\<rfloor> < n"
    by (simp add: floor_less_iff)
  with round_half_even_floor [of x] show ?thesis
    by linarith
qed

lemma binade:
  assumes "0 < x"
  shows "2 powr (of_int \<lfloor>log 2 x\<rfloor>) \<le> x" and "x < 2 powr (of_int (\<lfloor>log 2 x\<rfloor> + 1))"
  using assms floor_log_eq_powr_iff [of x 2 "\<lfloor>log 2 x\<rfloor>"] by simp_all

lemma floor_log_eq:
  assumes "2 powr (of_int k) \<le> x" and "x < 2 powr (of_int (k + 1))"
  shows "\<lfloor>log 2 x\<rfloor> = k"
proof -
  have "0 < x"
    using powr_gt_zero [of 2 "of_int k"] assms(1) by linarith
  with assms floor_log_eq_powr_iff [of x 2 k] show ?thesis
    by simp
qed

lemma scale_back: "(x :: real) * 2 powr (- of_int e) * 2 powr (of_int e) = x"
  by (simp add: powr_minus)

lemma float64_round_eval:
  assumes "2 powr (of_int k) \<le> \<bar>x\<bar>" and "\<bar>x\<bar> < 2 powr (of_int (k + 1))"
  shows "float64_round x =
           of_int (round_half_even (x * 2 powr (- of_int (k - 52)))) * 2 powr (of_int (k - 52))"
proof -
  have "0 < \<bar>x\<bar>"
    using powr_gt_zero [of 2 "of_int k"] assms(1) by linarith
  then have "x \<noteq> 0" by simp
  with floor_log_eq [OF assms] show ?thesis
    by (simp add: float64_round_def Let_def)
qed

lemma scaled_bounds:
  fixes x :: real
  assumes "2 powr (of_int k) \<le> x" and "x < 2 powr (of_int (k + 1))"
  shows "of_int (2 ^ 52) \<le> x * 2 powr (- of_int (k - 52))"
    and "x * 2 powr (- of_int (k - 52)) \<le> of_int (2 ^ 53)"
proof -
  have p: "0 < 2 powr (- of_int (k - 52) :: real)"
    by simp
  have lo: "2 powr (of_int k) * 2 powr (- of_int (k - 52)) = (2 :: real) ^ 52"
    by (simp add: powr_add [symmetric])
  have hi: "2 powr (of_int (k + 1)) * 2 powr (- of_int (k - 52)) = (2 :: real) ^ 53"
    by (simp add: powr_add [symmetric])
  from assms(1) p have "2 powr (of_int k) * 2 powr (- of_int (k - 52)) \<le> x * 2 powr (- of_int (k - 52))"
    by (simp only: mult_le_cancel_right_pos)
  then show "of_int (2 ^ 52) \<le> x * 2 powr (- of_int (k - 52))"
    unfolding lo by simp
  from assms(2) p have "x * 2 powr (- of_int (k - 52)) < 2 powr (of_int (k + 1)) * 2 powr (- of_int (k - 52))"
    by (simp only: mult_less_cancel_right_pos)
  then show "x * 2 powr (- of_int (k - 52)) \<le> of_int (2 ^ 53)"
    unfolding hi by simp
qed

lemma float64_round_lower:
  assumes "0 < x"
  shows "2 powr (of_int \<lfloor>log 2 x\<rfloor>) \<le> float64_round x"
proof -
  define k where "k = \<lfloor>log 2 x\<rfloor>"
  have b: "2 powr (of_int k) \<le> x" "x < 2 powr (of_int (k + 1))"
    using binade [OF assms] by (simp_all add: k_def)
  from assms b have ev: "float64_round x =
      of_int (round_half_even (x * 2 powr (- of_int (k - 52)))) * 2 powr (of_int (k - 52))"
    by (intro float64_round_eval) simp_all
  have "2 ^ 52 \<le> round_half_even (x * 2 powr (- of_int (k - 52)))"
    by (rule round_half_even_ge [OF scaled_bounds(1) [OF b]])
  then have "(of_int (2 ^ 52) :: real) \<le> of_int (round_half_even (x * 2 powr (- of_int (k - 52))))"
    by (simp only: of_int_le_iff)
  then have "of_int (2 ^ 52) * 2 powr (of_int (k - 52)) \<le> float64_round x"
    unfolding ev by (simp only: mult_le_cancel_right_pos powr_gt_zero)
  moreover have "of_int (2 ^ 52) * 2 powr (of_int (k - 52)) = (2 :: real) powr (of_int k)"
  proof -
    have "(2 :: real) powr (of_int k) = 2 powr (52 + of_int (k - 52))"
      by simp
    also have "\<dots> = 2 powr 52 * 2 powr (of_int (k - 52))"
      by (simp only: powr_add)
    finally show ?thesis by simp
  qed
  ultimately show ?thesis
    by (simp add: k_def)
qed

lemma float64_round_upper:
  assumes "0 < x"
  shows "float64_round x \<le> 2 powr (of_int (\<lfloor>log 2 x\<rfloor> + 1))"
proof -
  define k where "k = \<lfloor>log 2 x\<rfloor>"
  have b: "2 powr (of_int k) \<le> x" "x < 2 powr (of_int (k + 1))"
    using binade [OF assms] by (simp_all add: k_def)
  from assms b have ev: "float64_round x =
      of_int (round_half_even (x * 2 powr (- of_int (k - 52)))) * 2 powr (of_int (k - 52))"
    by (intro float64_round_eval) simp_all
  have "round_half_even (x * 2 powr (- of_int (k - 52))) \<le> 2 ^ 53"
    by (rule round_half_even_le [OF scaled_bounds(2) [OF b]])
  then have "(of_int (round_half_even (x * 2 powr (- of_int (k - 52)))) :: real) \<le> of_int (2 ^ 53)"
    by (simp only: of_int_le_iff)
  then have "float64_round x \<le> of_int (2 ^ 53) * 2 powr (of_int (k - 52))"
    unfolding ev by (simp only: mult_le_cancel_right_pos powr_gt_zero)
  moreover have "of_int (2 ^ 53) * 2 powr (of_int (k - 52)) = (2 :: real) powr (of_int (k + 1))"
  proof -
    have "(2 :: real) powr (of_int (k + 1)) = 2 powr (53 + of_int (k - 52))"
      by (simp add: add.commute)
    also have "\<dots> = 2 powr 53 * 2 powr (of_int (k - 52))"
      by (simp only: powr_add)
    finally show ?thesis by simp
  qed
  ultimately show ?thesis
    by (simp add: k_def)
qed

lemma float64_round_nonneg:
  assumes "0 \<le> x"
  shows "0 \<le> float64_round x"
proof (cases "x = 0")
  case True
  then show ?thesis by (simp add: float64_round_def)
next
  case False
  with assms have "0 < x" by simp
  from float64_round_lower [OF this] powr_gt_zero [of 2 "of_int \<lfloor>log 2 x\<rfloor>"]
  show ?thesis by linarith
qed

text \<open>A multiple \<open>m * 2^j\<close> with \<open>\<bar>m\<bar> < 2^53\<close>, scaled to its binade, is an integer.\<close>

lemma scaled_int:
  assumes "\<bar>m\<bar> < 2 ^ 53"
    and "2 powr (of_int k) \<le> \<bar>real_of_int m * 2 powr (of_int j)\<bar>"
  shows "real_of_int m * 2 powr (of_int j) * 2 powr (- of_int (k - 52)) =
           of_int (m * 2 ^ nat (j - (k - 52)))"
proof -
  have "\<bar>real_of_int m * 2 powr (of_int j)\<bar> = of_int \<bar>m\<bar> * 2 powr (of_int j)"
    by (simp add: abs_mult)
  also have "\<dots> < of_int (2 ^ 53) * 2 powr (of_int j)"
    using assms(1) by (simp only: mult_less_cancel_right_pos powr_gt_zero of_int_less_iff)
  also have "\<dots> = 2 powr (of_int (53 + j))"
    by (simp add: powr_add)
  finally have "2 powr (of_int k) < (2 :: real) powr (of_int (53 + j))"
    using assms(2) by linarith
  then have "k < 53 + j"
    by simp
  then have d: "0 \<le> j - (k - 52)"
    by simp
  have "(2 :: real) powr (of_int j) * 2 powr (- of_int (k - 52)) = 2 powr (of_int (j - (k - 52)))"
    by (simp add: powr_add [symmetric] algebra_simps)
  also have "\<dots> = 2 ^ nat (j - (k - 52))"
    using d by (subst powr_real_of_int) simp_all
  finally have "real_of_int m * (2 powr (of_int j) * 2 powr (- of_int (k - 52))) =
      of_int m * 2 ^ nat (j - (k - 52))"
    by (simp only:)
  then show ?thesis
    by (simp only: mult.assoc of_int_mult of_int_power of_int_numeral)
qed

lemma float64_round_exact:
  assumes "\<bar>m\<bar> < 2 ^ 53"
  shows "float64_round (of_int m * 2 powr (of_int j)) = of_int m * 2 powr (of_int j)"
proof (cases "m = 0")
  case True
  then show ?thesis by (simp add: float64_round_def)
next
  case False
  define x :: real where "x = of_int m * 2 powr (of_int j)"
  define k where "k = \<lfloor>log 2 \<bar>x\<bar>\<rfloor>"
  from False have pos: "0 < \<bar>x\<bar>"
    by (simp add: x_def)
  have b: "2 powr (of_int k) \<le> \<bar>x\<bar>" "\<bar>x\<bar> < 2 powr (of_int (k + 1))"
    using binade [OF pos] by (simp_all add: k_def)
  have ev: "float64_round x =
      of_int (round_half_even (x * 2 powr (- of_int (k - 52)))) * 2 powr (of_int (k - 52))"
    by (rule float64_round_eval [OF b])
  have sc: "x * 2 powr (- of_int (k - 52)) = of_int (m * 2 ^ nat (j - (k - 52)))"
    using scaled_int [OF assms, of k j] b(1) by (simp add: x_def)
  have "float64_round x = x * 2 powr (- of_int (k - 52)) * 2 powr (of_int (k - 52))"
    unfolding ev sc round_half_even_of_int ..
  then show ?thesis
    by (simp only: scale_back x_def)
qed

lemma float64_round_of_int:
  "\<bar>m\<bar> < 2 ^ 53 \<Longrightarrow> float64_round (of_int m) = of_int m"
  using float64_round_exact [of m 0] by simp

lemma floor_log_mono:
  assumes "0 < x" and "x \<le> y"
  shows "\<lfloor>log 2 x\<rfloor> \<le> \<lfloor>log 2 y\<rfloor>"
  using assms by (intro floor_mono) simp

text \<open>Rounding does not cross a representable number.\<close>

lemma float64_round_le:
  assumes "0 < x" and "x \<le> of_int m * 2 powr (of_int j)" and "\<bar>m\<bar> < 2 ^ 53"
  shows "float64_round x \<le> of_int m * 2 powr (of_int j)"
proof -
  define y :: real where "y = of_int m * 2 powr (of_int j)"
  define k where "k = \<lfloor>log 2 x\<rfloor>"
  from assms(1,2) have ypos: "0 < y" and xy: "x \<le> y"
    by (simp_all add: y_def)
  have bx: "2 powr (of_int k) \<le> x" "x < 2 powr (of_int (k + 1))"
    using binade [OF assms(1)] by (simp_all add: k_def)
  have "k \<le> \<lfloor>log 2 y\<rfloor>"
    unfolding k_def by (rule floor_log_mono [OF assms(1) xy])
  then consider "k = \<lfloor>log 2 y\<rfloor>" | "k + 1 \<le> \<lfloor>log 2 y\<rfloor>"
    by linarith
  then have "float64_round x \<le> y"
  proof cases
    case 1
    from bx(1) xy ypos have "2 powr (of_int k) \<le> \<bar>y\<bar>"
      by simp
    from scaled_int [OF assms(3) this [unfolded y_def]]
    have sc: "y * 2 powr (- of_int (k - 52)) = of_int (m * 2 ^ nat (j - (k - 52)))"
      by (simp add: y_def)
    from assms(1) bx have ev: "float64_round x =
        of_int (round_half_even (x * 2 powr (- of_int (k - 52)))) * 2 powr (of_int (k - 52))"
      by (intro float64_round_eval) simp_all
    from xy have "x * 2 powr (- of_int (k - 52)) \<le> y * 2 powr (- of_int (k - 52))"
      by (simp only: mult_le_cancel_right_pos powr_gt_zero)
    then have "round_half_even (x * 2 powr (- of_int (k - 52))) \<le> m * 2 ^ nat (j - (k - 52))"
      unfolding sc by (rule round_half_even_le)
    then have "(of_int (round_half_even (x * 2 powr (- of_int (k - 52)))) :: real)
                 \<le> of_int (m * 2 ^ nat (j - (k - 52)))"
      by (simp only: of_int_le_iff)
    then have "float64_round x \<le> y * 2 powr (- of_int (k - 52)) * 2 powr (of_int (k - 52))"
      unfolding ev sc by (simp only: mult_le_cancel_right_pos powr_gt_zero)
    then show ?thesis
      by (simp only: scale_back)
  next
    case 2
    have "float64_round x \<le> 2 powr (of_int (k + 1))"
      using float64_round_upper [OF assms(1)] by (simp add: k_def)
    also have "\<dots> \<le> 2 powr (of_int \<lfloor>log 2 y\<rfloor>)"
      using 2 by simp
    also have "\<dots> \<le> y"
      by (rule binade(1) [OF ypos])
    finally show ?thesis .
  qed
  then show ?thesis
    by (simp add: y_def)
qed

lemma float64_round_ge:
  assumes "0 < real_of_int m * 2 powr (of_int j)" and "of_int m * 2 powr (of_int j) \<le> x"
    and "\<bar>m\<bar> < 2 ^ 53"
  shows "of_int m * 2 powr (of_int j) \<le> float64_round x"
proof -
  define y :: real where "y = of_int m * 2 powr (of_int j)"
  define k where "k = \<lfloor>log 2 x\<rfloor>"
  from assms(1,2) have ypos: "0 < y" and yx: "y \<le> x" and xpos: "0 < x"
    by (simp_all add: y_def)
  have bx: "2 powr (of_int k) \<le> x" "x < 2 powr (of_int (k + 1))"
    using binade [OF xpos] by (simp_all add: k_def)
  have "\<lfloor>log 2 y\<rfloor> \<le> k"
    unfolding k_def by (rule floor_log_mono [OF ypos yx])
  then consider "\<lfloor>log 2 y\<rfloor> = k" | "\<lfloor>log 2 y\<rfloor> + 1 \<le> k"
    by linarith
  then have "y \<le> float64_round x"
  proof cases
    case 1
    from binade(1) [OF ypos] 1 ypos have "2 powr (of_int k) \<le> \<bar>y\<bar>"
      by simp
    from scaled_int [OF assms(3) this [unfolded y_def]]
    have sc: "y * 2 powr (- of_int (k - 52)) = of_int (m * 2 ^ nat (j - (k - 52)))"
      by (simp add: y_def)
    from xpos bx have ev: "float64_round x =
        of_int (round_half_even (x * 2 powr (- of_int (k - 52)))) * 2 powr (of_int (k - 52))"
      by (intro float64_round_eval) simp_all
    from yx have "y * 2 powr (- of_int (k - 52)) \<le> x * 2 powr (- of_int (k - 52))"
      by (simp only: mult_le_cancel_right_pos powr_gt_zero)
    then have "m * 2 ^ nat (j - (k - 52)) \<le> round_half_even (x * 2 powr (- of_int (k - 52)))"
      unfolding sc by (rule round_half_even_ge)
    then have "(of_int (m * 2 ^ nat (j - (k - 52))) :: real)
                 \<le> of_int (round_half_even (x * 2 powr (- of_int (k - 52))))"
      by (simp only: of_int_le_iff)
    then have "y * 2 powr (- of_int (k - 52)) * 2 powr (of_int (k - 52)) \<le> float64_round x"
      unfolding ev sc by (simp only: mult_le_cancel_right_pos powr_gt_zero)
    then show ?thesis
      by (simp only: scale_back)
  next
    case 2
    have "y < 2 powr (of_int (\<lfloor>log 2 y\<rfloor> + 1))"
      by (rule binade(2) [OF ypos])
    also have "\<dots> \<le> 2 powr (of_int k)"
      using 2 by simp
    also have "\<dots> \<le> float64_round x"
      using float64_round_lower [OF xpos] by (simp add: k_def)
    finally show ?thesis by simp
  qed
  then show ?thesis
    by (simp add: y_def)
qed

section \<open>The range of Progress\<close>

lemma Progress_same: "fastq_Progress file = fasta_Progress file"
  by (simp add: fastq_Progress_def fasta_Progress_def)

lemma sint_times_100:
  fixes pos :: "64 word"
  assumes "0 \<le> sint pos" and "sint pos * 100 < 2 ^ 63"
  shows "sint (pos * 100) = sint pos * 100"
proof -
  have "sint (pos * 100) = signed_take_bit 63 (sint pos * sint (100 :: 64 word))"
    by (simp add: sint_word_ariths)
  also have "sint (100 :: 64 word) = 100"
    by simp
  also have "signed_take_bit 63 (sint pos * 100) = sint pos * 100"
    using assms by (intro signed_take_bit_int_eq_self) auto
  finally show ?thesis .
qed

lemma percent_range:
  fixes p s :: int
  assumes "0 \<le> p" and "p \<le> s" and "0 < s" and "p * 100 < 2 ^ 53"
  shows "0 \<le> float64_round (real_of_int (p * 100) / float64_round (real_of_int s))"
    and "float64_round (real_of_int (p * 100) / float64_round (real_of_int s)) \<le> 100"
proof -
  define den where "den = float64_round (real_of_int s)"
  define q where "q = real_of_int (p * 100) / den"
  have one: "1 \<le> den"
    using float64_round_ge [of 1 0 "real_of_int s"] assms(3) by (simp add: den_def)
  have pd: "real_of_int p \<le> den"
  proof (cases "p = 0")
    case True
    with one show ?thesis by simp
  next
    case False
    with assms(1) have "0 < p" by simp
    with assms(2,4) float64_round_ge [of p 0 "real_of_int s"] show ?thesis
      by (simp add: den_def)
  qed
  from one assms(1) have q0: "0 \<le> q"
    by (simp add: q_def)
  from one pd have q100: "q \<le> 100"
    by (simp add: q_def divide_le_eq)
  from float64_round_nonneg [OF q0]
  show "0 \<le> float64_round (real_of_int (p * 100) / float64_round (real_of_int s))"
    by (simp only: q_def den_def)
  have "float64_round q \<le> 100"
  proof (cases "q = 0")
    case True
    then show ?thesis by (simp add: float64_round_def)
  next
    case False
    with q0 have "0 < q" by simp
    with q100 float64_round_le [of q 100 0] show ?thesis
      by simp
  qed
  then show "float64_round (real_of_int (p * 100) / float64_round (real_of_int s)) \<le> 100"
    by (simp only: q_def den_def)
qed

lemma Progress_known:
  assumes "Stat_Size file = Inr sz" and "0 < sint sz" and "Seek_Cur file = Inr pos"
    and "0 \<le> sint pos" and "sint pos * 100 < 2 ^ 53"
  shows "fasta_Progress file =
           float64_round (real_of_int (sint pos * 100) / float64_round (real_of_int (sint sz)))"
proof -
  from assms(5) have "sint pos * 100 < 2 ^ 63"
    by simp
  from sint_times_100 [OF assms(4) this]
  have m: "sint (pos * 100) = sint pos * 100" .
  from assms(4,5) have "\<bar>sint pos * 100\<bar> < 2 ^ 53"
    by simp
  from float64_round_of_int [OF this]
  have "float64_of_int64 (pos * 100) = real_of_int (sint pos * 100)"
    by (simp only: float64_of_int64_def m)
  with assms(1-3) show ?thesis
    by (simp add: fasta_Progress_def float64_div_def float64_of_int64_def)
qed

text \<open>
  Claim C8, as amended. The claim: \<^verbatim>\<open>Progress()\<close> returns a value in \<open>[0, 100]\<close>, the
  offset times 100 divided by the size, or exactly \<open>-1\<close> when the size or the offset
  cannot be determined. What holds, for a file whose offset is between 0 and its size
  with offset * 100 below \<open>2^53\<close>: \<^verbatim>\<open>Progress()\<close> returns \<open>-1\<close> exactly when \<^verbatim>\<open>Stat\<close>
  fails, the size is not positive or \<^verbatim>\<open>Seek\<close> fails. Otherwise it returns the
  \<^verbatim>\<open>float64\<close> quotient of offset * 100 and the size converted to \<^verbatim>\<open>float64\<close>, which is
  offset * 100 / size rounded to \<^verbatim>\<open>float64\<close> when the size is below \<open>2^53\<close> as well, and
  that value lies in \<open>[0, 100]\<close>. Both decoders compute the same.
\<close>

theorem Progress_range:
  assumes "\<forall>sz pos. Stat_Size file = Inr sz \<and> Seek_Cur file = Inr pos \<longrightarrow>
             0 \<le> sint pos \<and> sint pos \<le> sint sz \<and> sint pos * 100 < 2 ^ 53"
  shows "(fasta_Progress file = - 1 \<longleftrightarrow>
            \<not> (\<exists>sz pos. Stat_Size file = Inr sz \<and> 0 < sint sz \<and> Seek_Cur file = Inr pos))
       \<and> (\<forall>sz pos. Stat_Size file = Inr sz \<and> 0 < sint sz \<and> Seek_Cur file = Inr pos \<longrightarrow>
            fasta_Progress file =
              float64_round (real_of_int (sint pos * 100) / float64_round (real_of_int (sint sz)))
            \<and> (sint sz < 2 ^ 53 \<longrightarrow>
                 fasta_Progress file =
                   float64_round (real_of_int (sint pos * 100) / real_of_int (sint sz)))
            \<and> 0 \<le> fasta_Progress file \<and> fasta_Progress file \<le> 100)
       \<and> fastq_Progress file = fasta_Progress file"
proof -
  have known: "fasta_Progress file =
              float64_round (real_of_int (sint pos * 100) / float64_round (real_of_int (sint sz)))
            \<and> (sint sz < 2 ^ 53 \<longrightarrow>
                 fasta_Progress file =
                   float64_round (real_of_int (sint pos * 100) / real_of_int (sint sz)))
            \<and> 0 \<le> fasta_Progress file \<and> fasta_Progress file \<le> 100"
    if k: "Stat_Size file = Inr sz" "0 < sint sz" "Seek_Cur file = Inr pos" for sz pos
  proof -
    from assms k have b: "0 \<le> sint pos" "sint pos \<le> sint sz" "sint pos * 100 < 2 ^ 53"
      by auto
    note v = Progress_known [OF k b(1) b(3)]
    have "float64_round (real_of_int (sint sz)) = real_of_int (sint sz)" if "sint sz < 2 ^ 53"
      using that k(2) by (intro float64_round_of_int) simp
    with v percent_range [OF b(1) b(2) k(2) b(3)] show ?thesis
      by simp
  qed
  have unknown: "fasta_Progress file = - 1"
    if "\<not> (\<exists>sz pos. Stat_Size file = Inr sz \<and> 0 < sint sz \<and> Seek_Cur file = Inr pos)"
  proof (cases "Stat_Size file")
    case (Inl e)
    then show ?thesis by (simp add: fasta_Progress_def)
  next
    case sz: (Inr sz)
    show ?thesis
    proof (cases "Seek_Cur file")
      case (Inl e)
      with sz show ?thesis by (simp add: fasta_Progress_def)
    next
      case (Inr pos)
      with sz that have "sint sz \<le> 0"
        by (meson not_less)
      with sz show ?thesis by (simp add: fasta_Progress_def)
    qed
  qed
  from known unknown show ?thesis
    by (fastforce simp: Progress_same)
qed

theorem Progress_range_witness:
  "fasta_Progress \<lparr>Stat_Size = Inr 1000, Seek_Cur = Inr 250\<rparr> = 25
   \<and> fastq_Progress \<lparr>Stat_Size = Inr 1000, Seek_Cur = Inr 250\<rparr> = 25
   \<and> fasta_Progress \<lparr>Stat_Size = Inr 1000, Seek_Cur = Inr 250\<rparr> \<noteq> - 1
   \<and> 0 \<le> fasta_Progress \<lparr>Stat_Size = Inr 1000, Seek_Cur = Inr 250\<rparr>
   \<and> fasta_Progress \<lparr>Stat_Size = Inr 1000, Seek_Cur = Inr 250\<rparr> \<le> 100"
proof -
  have "\<forall>sz pos. Stat_Size \<lparr>Stat_Size = Inr 1000, Seek_Cur = Inr 250\<rparr> = Inr sz \<and>
      Seek_Cur \<lparr>Stat_Size = Inr 1000, Seek_Cur = Inr 250\<rparr> = Inr pos \<longrightarrow>
             0 \<le> sint pos \<and> sint pos \<le> sint sz \<and> sint pos * 100 < 2 ^ 53"
    by auto
  from Progress_range [OF this] float64_round_of_int [of 25] show ?thesis
    by simp
qed

text \<open>The two roundings of the third input below.\<close>

lemma float64_round_tie: "float64_round 36028797018964300 = 36028797018964304"
proof -
  have "float64_round 36028797018964300 =
      of_int (round_half_even (36028797018964300 * 2 powr (- of_int (55 - 52)))) *
        2 powr (of_int (55 - 52))"
    by (rule float64_round_eval) simp_all
  also have "(36028797018964300 :: real) * 2 powr (- of_int (55 - 52)) = 36028797018964300 / 8"
    by (simp add: powr_minus)
  also have "round_half_even (36028797018964300 / 8) = 4503599627370538"
    by (simp add: round_half_even_def Let_def)
  finally show ?thesis
    by simp
qed

lemma float64_round_above_100:
  "float64_round (36028797018964304 / 360287970189643) = 100 + 1 / 2 ^ 46"
proof -
  have "float64_round (36028797018964304 / 360287970189643) =
      of_int (round_half_even (36028797018964304 / 360287970189643 * 2 powr (- of_int (6 - 52)))) *
        2 powr (of_int (6 - 52))"
    by (rule float64_round_eval) simp_all
  also have "(36028797018964304 / 360287970189643 :: real) * 2 powr (- of_int (6 - 52)) =
      2535301200456482446891450105856 / 360287970189643"
    by simp
  also have "round_half_even (2535301200456482446891450105856 / 360287970189643) = 7036874417766401"
    by (simp add: round_half_even_def Let_def)
  finally show ?thesis
    by (simp add: powr_minus)
qed

text \<open>
  Claim C8 as stated fails. With size and offset both \<open>2^57\<close> the 64-bit product
  offset * 100 wraps around and \<^verbatim>\<open>Progress()\<close> is \<open>-28\<close>. With an offset beyond the size
  reported by \<^verbatim>\<open>Stat\<close> (size 10, offset 4096) it is 40960. With size and offset both
  360287970189643 nothing wraps, but the product, above \<open>2^53\<close>, is rounded up by the
  conversion to \<^verbatim>\<open>float64\<close> (\<open>float64_round_tie\<close>) and \<^verbatim>\<open>Progress()\<close> is
  \<open>100 + 2^-46\<close>, the \<^verbatim>\<open>float64\<close> that follows 100.
\<close>

theorem Progress_out_of_range:
  "fasta_Progress \<lparr>Stat_Size = Inr (2 ^ 57), Seek_Cur = Inr (2 ^ 57)\<rparr> = - 28
   \<and> fastq_Progress \<lparr>Stat_Size = Inr (2 ^ 57), Seek_Cur = Inr (2 ^ 57)\<rparr> = - 28
   \<and> fasta_Progress \<lparr>Stat_Size = Inr 10, Seek_Cur = Inr 4096\<rparr> = 40960
   \<and> fastq_Progress \<lparr>Stat_Size = Inr 10, Seek_Cur = Inr 4096\<rparr> = 40960
   \<and> fasta_Progress \<lparr>Stat_Size = Inr 360287970189643, Seek_Cur = Inr 360287970189643\<rparr>
       = 100 + 1 / 2 ^ 46
   \<and> fastq_Progress \<lparr>Stat_Size = Inr 360287970189643, Seek_Cur = Inr 360287970189643\<rparr>
       = 100 + 1 / 2 ^ 46"
proof -
  have a: "fasta_Progress \<lparr>Stat_Size = Inr (2 ^ 57), Seek_Cur = Inr (2 ^ 57)\<rparr> = - 28"
    using float64_round_exact [of "- 7" 59] float64_round_exact [of 1 57]
      float64_round_of_int [of "- 28"]
    by (simp add: fasta_Progress_def float64_div_def float64_of_int64_def)
  have b: "fasta_Progress \<lparr>Stat_Size = Inr 10, Seek_Cur = Inr 4096\<rparr> = 40960"
    using float64_round_of_int [of 409600] float64_round_of_int [of 10]
      float64_round_of_int [of 40960]
    by (simp add: fasta_Progress_def float64_div_def float64_of_int64_def)
  have c: "fasta_Progress \<lparr>Stat_Size = Inr 360287970189643, Seek_Cur = Inr 360287970189643\<rparr>
       = 100 + 1 / 2 ^ 46"
    using float64_round_of_int [of 360287970189643] float64_round_tie float64_round_above_100
    by (simp add: fasta_Progress_def float64_div_def float64_of_int64_def)
  from a b c show ?thesis
    by (simp only: Progress_same)
qed

section \<open>Resynchronisation of the FASTQ decoder\<close>

lemma concat_spec_lines: "concat (spec_lines u) = u"
  by (induction u) (auto split: list.splits)

lemma spec_lines_Nil [simp]: "spec_lines u = [] \<longleftrightarrow> u = []"
  by (cases u) (auto split: list.splits)

lemma spec_lines_terminated:
  "CHR ''\<newline>'' \<notin> set l \<Longrightarrow>
   spec_lines (l @ CHR ''\<newline>'' # rest) = (l @ ''\<newline>'') # spec_lines rest"
  by (induction l) auto

lemma spec_lines_unterminated:
  "CHR ''\<newline>'' \<notin> set l \<Longrightarrow> l \<noteq> [] \<Longrightarrow> spec_lines l = [l]"
proof (induction l)
  case Nil
  then show ?case by simp
next
  case (Cons a l)
  then show ?case
    by (cases "l = []") auto
qed

lemma split_at_newline:
  assumes "d \<in> set u"
  shows "u = takeWhile (\<lambda>c. c \<noteq> d) u @ d # tl (dropWhile (\<lambda>c. c \<noteq> d) u)"
proof -
  from assms obtain x xs where dw: "dropWhile (\<lambda>c. c \<noteq> d) u = x # xs"
    by (cases "dropWhile (\<lambda>c. c \<noteq> d) u") auto
  then have "x = d"
    using hd_dropWhile [of "\<lambda>c. c \<noteq> d" u] by auto
  with dw takeWhile_dropWhile_id [of "\<lambda>c. c \<noteq> d" u] show ?thesis
    by simp
qed

lemma ReadBytes_spec_lines:
  assumes "unread r \<noteq> []"
  obtains l ls where "spec_lines (unread r) = l # ls" and "l \<noteq> []"
    and "ReadBytes CHR ''\<newline>'' r =
          (l, (if last l = CHR ''\<newline>'' then None else Some (readErr r)), r\<lparr>unread := concat ls\<rparr>)"
    and "spec_lines (concat ls) = ls" and "last l \<noteq> CHR ''\<newline>'' \<Longrightarrow> ls = []"
proof (cases "CHR ''\<newline>'' \<in> set (unread r)")
  case True
  let ?tw = "takeWhile (\<lambda>c. c \<noteq> CHR ''\<newline>'') (unread r)"
  let ?rest = "tl (dropWhile (\<lambda>c. c \<noteq> CHR ''\<newline>'') (unread r))"
  have u: "unread r = ?tw @ CHR ''\<newline>'' # ?rest"
    by (rule split_at_newline [OF True])
  have "CHR ''\<newline>'' \<notin> set ?tw"
    by (auto dest: set_takeWhileD)
  from spec_lines_terminated [OF this, of ?rest] u
  have sl: "spec_lines (unread r) = (?tw @ ''\<newline>'') # spec_lines ?rest"
    by simp
  show ?thesis
  proof (rule that [OF sl])
    show "ReadBytes CHR ''\<newline>'' r =
      (?tw @ ''\<newline>'', (if last (?tw @ ''\<newline>'') = CHR ''\<newline>'' then None else Some (readErr r)),
       r\<lparr>unread := concat (spec_lines ?rest)\<rparr>)"
      using True by (simp add: ReadBytes_def Let_def concat_spec_lines)
  qed (simp_all add: concat_spec_lines)
next
  case False
  from spec_lines_unterminated [OF False assms]
  have sl: "spec_lines (unread r) = [unread r]" .
  from False assms have "last (unread r) \<noteq> CHR ''\<newline>''"
    using last_in_set by metis
  with False assms show ?thesis
    by (intro that [OF sl]) (simp_all add: ReadBytes_def Let_def)
qed

lemma ReadBytes_broken:
  "ReadBytes d r = (l, e, r') \<Longrightarrow> broken r' = broken r"
  by (auto simp: ReadBytes_def Let_def split: if_splits)

lemma fastq_resync_loop_stop:
  "identifierBytes f = [] \<or> hd (identifierBytes f) = CHR ''@'' \<or> lastErr f \<noteq> None \<Longrightarrow>
   fastq_resync_loop f = f"
  by (subst fastq_resync_loop.simps) auto

lemma fastq_resync_loop_step:
  "identifierBytes f \<noteq> [] \<Longrightarrow> hd (identifierBytes f) \<noteq> CHR ''@'' \<Longrightarrow> lastErr f = None \<Longrightarrow>
   ReadBytes CHR ''\<newline>'' (br f) = (l, e, r) \<Longrightarrow>
   fastq_resync_loop f = fastq_resync_loop (f\<lparr>br := r, identifierBytes := l, lastErr := e\<rparr>)"
  by (subst fastq_resync_loop.simps) auto

lemma readErr_unread [simp]: "readErr (r\<lparr>unread := u\<rparr>) = readErr r"
  by (simp add: readErr_def)

lemma snd_fastq_Next_result [simp]: "snd (fastq_Next_result g) = g"
  by (simp add: fastq_Next_result_def)

lemma resync_after_read:
  assumes "ReadBytes CHR ''\<newline>'' (br f) = (l, e, r)"
    and "g = fastq_resync_loop (f\<lparr>br := r, identifierBytes := l, lastErr := e\<rparr>)"
  shows "case dropWhile (\<lambda>l. hd l \<noteq> CHR ''@'') (spec_lines (unread (br f))) of
           [] \<Rightarrow> fst (fastq_Next_result g) = False \<and> unread (br g) = []
                 \<and> lastErr g = Some (readErr (br f))
         | h # ls \<Rightarrow> fst (fastq_Next_result g) = True \<and> identifierBytes g = h
                 \<and> unread (br g) = concat ls
                 \<and> lastErr g = (if last h = CHR ''\<newline>'' then None else Some (readErr (br f)))"
  using assms
proof (induction "length (unread (br f))" arbitrary: f l e r g rule: less_induct)
  case less
  let ?f' = "f\<lparr>br := r, identifierBytes := l, lastErr := e\<rparr>"
  show ?case
  proof (cases "unread (br f) = []")
    case True
    with less.prems show ?thesis
      by (auto simp: ReadBytes_def Let_def fastq_resync_loop_stop fastq_Next_result_def)
  next
    case False
    from ReadBytes_spec_lines [OF False] obtain h ls where
      sl: "spec_lines (unread (br f)) = h # ls" and h: "h \<noteq> []"
      and rb: "ReadBytes CHR ''\<newline>'' (br f) =
          (h, (if last h = CHR ''\<newline>'' then None else Some (readErr (br f))),
           (br f)\<lparr>unread := concat ls\<rparr>)"
      and ls: "spec_lines (concat ls) = ls" and unterm: "last h \<noteq> CHR ''\<newline>'' \<Longrightarrow> ls = []"
      by blast
    from rb less.prems(1) have l: "l = h" and r: "r = (br f)\<lparr>unread := concat ls\<rparr>"
      and e: "e = (if last h = CHR ''\<newline>'' then None else Some (readErr (br f)))"
      by simp_all
    show ?thesis
    proof (cases "hd h = CHR ''@''")
      case True
      with h less.prems(2) show ?thesis
        by (simp add: sl l r e fastq_resync_loop_stop fastq_Next_result_def)
    next
      case notat: False
      show ?thesis
      proof (cases "last h = CHR ''\<newline>''")
        case False
        with unterm have "ls = []" by simp
        with False notat h less.prems(2) show ?thesis
          by (simp add: sl l r e fastq_resync_loop_stop fastq_Next_result_def)
      next
        case True
        obtain l2 e2 r2 where rb2: "ReadBytes CHR ''\<newline>'' (br ?f') = (l2, e2, r2)"
          by (cases "ReadBytes CHR ''\<newline>'' (br ?f')") auto
        from True notat h less.prems(2)
        have g: "g = fastq_resync_loop (?f'\<lparr>br := r2, identifierBytes := l2, lastErr := e2\<rparr>)"
          using fastq_resync_loop_step [OF _ _ _ rb2] by (simp add: l e)
        have shorter: "length (unread (br ?f')) < length (unread (br f))"
          using ReadBytes_less [OF less.prems(1)] True e by simp
        have eqs: "spec_lines (unread (br ?f')) = ls" "readErr (br ?f') = readErr (br f)"
          by (simp_all add: r ls)
        have dw: "dropWhile (\<lambda>l. hd l \<noteq> CHR ''@'') (h # ls) = dropWhile (\<lambda>l. hd l \<noteq> CHR ''@'') ls"
          using notat by simp
        from less.hyps [OF shorter rb2 g, unfolded eqs]
        show ?thesis
          unfolding sl dw .
      qed
    qed
  qed
qed

text \<open>
  The resynchronisation where the discard runs. Take a FASTQ decoder in the state after
  a record with a non-empty sequence has been read: no error, a positive \<^verbatim>\<open>lastSeqLen\<close>,
  and at least that many bytes left, so that the discard succeeds. \<^verbatim>\<open>Next\<close> then consumes
  whole lines of what follows the discarded bytes up to and including the first line
  that starts with \<open>@\<close>: it returns true with that line as the identifier line and the
  reader positioned right after it, and the lines skipped (stray or blank) raise no
  error. When no line starts with \<open>@\<close>, it consumes the rest of the stream and returns
  false with the stream's end as its error.
\<close>

lemma fastq_Next_resynchronizes:
  assumes "lastErr f = None" and "0 < lastSeqLen f" and "lastSeqLen f \<le> length (unread (br f))"
  shows "case dropWhile (\<lambda>l. hd l \<noteq> CHR ''@'')
                (spec_lines (drop (lastSeqLen f) (unread (br f)))) of
           [] \<Rightarrow> fst (fastq_Next f) = False \<and> unread (br (snd (fastq_Next f))) = []
                 \<and> fastq_Err (snd (fastq_Next f)) = Some (readErr (br f))
         | h # ls \<Rightarrow> fst (fastq_Next f) = True \<and> identifierBytes (snd (fastq_Next f)) = h
                 \<and> unread (br (snd (fastq_Next f))) = concat ls
                 \<and> fastq_Err (snd (fastq_Next f)) =
                     (if last h = CHR ''\<newline>'' then None else Some (readErr (br f)))"
proof -
  let ?f2 = "f\<lparr>br := (br f)\<lparr>unread := drop (lastSeqLen f) (unread (br f))\<rparr>,
               lastErr := None, lastSeqLen := 0\<rparr>"
  have d: "fastq_discard_loop f = ?f2"
    using assms by (simp add: fastq_discard_loop_eq)
  obtain l e r where rb: "ReadBytes CHR ''\<newline>'' (br ?f2) = (l, e, r)"
    by (cases "ReadBytes CHR ''\<newline>'' (br ?f2)") auto
  define g where "g = fastq_resync_loop (?f2\<lparr>br := r, identifierBytes := l, lastErr := e\<rparr>)"
  have nx: "fastq_Next f = fastq_Next_result g"
    using assms rb by (simp add: fastq_Next_def d g_def)
  have eqs: "unread (br ?f2) = drop (lastSeqLen f) (unread (br f))"
    "readErr (br ?f2) = readErr (br f)"
    by simp_all
  from resync_after_read [OF rb g_def, unfolded eqs] show ?thesis
    unfolding nx snd_fastq_Next_result fastq_Err_def .
qed

lemma fastq_Next_resynchronizes_example:
  "fst (fastq_Next \<lparr>br = stream_of ''!!!!\<newline>\<newline>stray\<newline>@r2\<newline>GG\<newline>'', lastErr = None,
          identifierBytes = ''@r1\<newline>'', lastBytes = ''+\<newline>'', fileClosed = False,
          lastSeqLen = 4\<rparr>) = True
   \<and> identifierBytes (snd (fastq_Next \<lparr>br = stream_of ''!!!!\<newline>\<newline>stray\<newline>@r2\<newline>GG\<newline>'',
          lastErr = None, identifierBytes = ''@r1\<newline>'', lastBytes = ''+\<newline>'',
          fileClosed = False, lastSeqLen = 4\<rparr>)) = ''@r2\<newline>''
   \<and> unread (br (snd (fastq_Next \<lparr>br = stream_of ''!!!!\<newline>\<newline>stray\<newline>@r2\<newline>GG\<newline>'',
          lastErr = None, identifierBytes = ''@r1\<newline>'', lastBytes = ''+\<newline>'',
          fileClosed = False, lastSeqLen = 4\<rparr>))) = ''GG\<newline>''
   \<and> fastq_Err (snd (fastq_Next \<lparr>br = stream_of ''!!!!\<newline>\<newline>stray\<newline>@r2\<newline>GG\<newline>'',
          lastErr = None, identifierBytes = ''@r1\<newline>'', lastBytes = ''+\<newline>'',
          fileClosed = False, lastSeqLen = 4\<rparr>)) = None"
  using fastq_Next_resynchronizes [of "\<lparr>br = stream_of ''!!!!\<newline>\<newline>stray\<newline>@r2\<newline>GG\<newline>'',
          lastErr = None, identifierBytes = ''@r1\<newline>'', lastBytes = ''+\<newline>'',
          fileClosed = False, lastSeqLen = 4\<rparr>"]
  by (simp add: stream_of_def)

lemma fastq_Next_without_discard:
  assumes "lastErr f = None" and "lastSeqLen f = 0"
  shows "fastq_Next f = fastq_Next_result f"
  using assms by (simp add: fastq_Next_def)

text \<open>
  Claim C4. The claim: whenever the line after the quality-byte discard does not begin
  with \<open>@\<close>, \<^verbatim>\<open>Next\<close> consumes whole lines until one does or the stream ends. In \<^verbatim>\<open>Next\<close>
  the discard and the loop that reads on to the next header both sit under the test
  \<^verbatim>\<open>lastSeqLen > 0\<close>, so after a record whose sequence is empty neither runs
  (\<open>fastq_Next_without_discard\<close>): \<^verbatim>\<open>Next\<close> consumes no line and returns true on the
  identifier line of the record just read. In the example the record \<open>r1\<close> has an empty
  sequence and an empty quality line. After \<^verbatim>\<open>Sequence\<close> the blank quality line is next,
  a line that does not begin with \<open>@\<close>; \<^verbatim>\<open>Next\<close> leaves it unread and returns true with
  \<open>@r1\<close> still as the identifier line. The second \<^verbatim>\<open>Sequence\<close> then takes the blank line,
  the header \<open>@r2\<close> and its bases for sequence data: \<open>r1\<close> is emitted twice and \<open>r2\<close> never.
  (After a record with a non-empty sequence the loop does what the claim says, see
  \<open>fastq_Next_resynchronizes\<close>.)
\<close>

theorem fastq_Next_keeps_header_after_empty_sequence:
  "Open (Inr (stream_of empty_sequence_example)) =
     (Some (Fastq (new_fastFastqReader (stream_of empty_sequence_example))), None)
   \<and> fastq_Sequence (snd (fastq_Next (new_fastFastqReader (stream_of empty_sequence_example)))) =
     ([],
      \<lparr>br = stream_of ''\<newline>@r2\<newline>AC\<newline>+\<newline>II\<newline>'', lastErr = None,
       identifierBytes = ''@r1\<newline>'', lastBytes = ''+\<newline>'', fileClosed = False,
       lastSeqLen = 0\<rparr>)
   \<and> fastq_Next
       \<lparr>br = stream_of ''\<newline>@r2\<newline>AC\<newline>+\<newline>II\<newline>'', lastErr = None,
        identifierBytes = ''@r1\<newline>'', lastBytes = ''+\<newline>'', fileClosed = False,
        lastSeqLen = 0\<rparr> =
     (True,
      \<lparr>br = stream_of ''\<newline>@r2\<newline>AC\<newline>+\<newline>II\<newline>'', lastErr = None,
       identifierBytes = ''@r1\<newline>'', lastBytes = ''+\<newline>'', fileClosed = False,
       lastSeqLen = 0\<rparr>)
   \<and> convertFile (Inr (stream_of empty_sequence_example)) =
     Inr [\<lparr>Identifier = ''r1'', Sequence = []\<rparr>,
          \<lparr>Identifier = ''r1'', Sequence = ''@r2AC''\<rparr>]"
proof -
  have 1: "Open (Inr (stream_of empty_sequence_example)) =
     (Some (Fastq (new_fastFastqReader (stream_of empty_sequence_example))), None)"
    by code_simp
  have 2: "fastq_Sequence (snd (fastq_Next (new_fastFastqReader (stream_of empty_sequence_example)))) =
     ([],
      \<lparr>br = stream_of ''\<newline>@r2\<newline>AC\<newline>+\<newline>II\<newline>'', lastErr = None,
       identifierBytes = ''@r1\<newline>'', lastBytes = ''+\<newline>'', fileClosed = False,
       lastSeqLen = 0\<rparr>)"
    by code_simp
  have 3: "fastq_Next
       \<lparr>br = stream_of ''\<newline>@r2\<newline>AC\<newline>+\<newline>II\<newline>'', lastErr = None,
        identifierBytes = ''@r1\<newline>'', lastBytes = ''+\<newline>'', fileClosed = False,
        lastSeqLen = 0\<rparr> =
     (True,
      \<lparr>br = stream_of ''\<newline>@r2\<newline>AC\<newline>+\<newline>II\<newline>'', lastErr = None,
       identifierBytes = ''@r1\<newline>'', lastBytes = ''+\<newline>'', fileClosed = False,
       lastSeqLen = 0\<rparr>)"
    by code_simp
  have 4: "convertFile (Inr (stream_of empty_sequence_example)) =
     Inr [\<lparr>Identifier = ''r1'', Sequence = []\<rparr>,
          \<lparr>Identifier = ''r1'', Sequence = ''@r2AC''\<rparr>]"
    by code_simp
  from 1 2 3 4 show ?thesis by blast
qed

section \<open>Lines longer than the buffer\<close>

lemma ReadSlice_line:
  assumes "unread r = l @ CHR ''\<newline>'' # rest" and "CHR ''\<newline>'' \<notin> set l"
    and "length l < defaultBufSize"
  shows "ReadSlice CHR ''\<newline>'' r = (l @ ''\<newline>'', None, r\<lparr>unread := rest\<rparr>)"
proof -
  from assms(3) obtain k where "defaultBufSize - length l = Suc k"
    by (cases "defaultBufSize - length l") auto
  then have "CHR ''\<newline>'' \<in> set (take defaultBufSize (unread r))"
    by (simp add: assms(1))
  moreover have "takeWhile (\<lambda>c. c \<noteq> CHR ''\<newline>'') (unread r) = l"
    using assms(2) by (auto simp: assms(1) takeWhile_append)
  moreover have "dropWhile (\<lambda>c. c \<noteq> CHR ''\<newline>'') (unread r) = CHR ''\<newline>'' # rest"
    using assms(2) by (auto simp: assms(1) dropWhile_append)
  ultimately show ?thesis
    by (simp add: ReadSlice_def Let_def)
qed

lemma ReadSlice_full:
  assumes "unread r = l @ rest" and "CHR ''\<newline>'' \<notin> set l" and "length l = defaultBufSize"
  shows "ReadSlice CHR ''\<newline>'' r = (l, Some ErrBufferFull, r\<lparr>unread := rest\<rparr>)"
  using assms by (simp add: ReadSlice_def Let_def)

lemma ReadSlice_end:
  assumes "unread r = l" and "CHR ''\<newline>'' \<notin> set l" and "length l < defaultBufSize"
  shows "ReadSlice CHR ''\<newline>'' r = (l, Some (readErr r), r\<lparr>unread := []\<rparr>)"
proof -
  have "CHR ''\<newline>'' \<notin> set (take defaultBufSize l)"
    using assms(2) by (meson in_set_takeD)
  with assms show ?thesis
    by (simp add: ReadSlice_def Let_def)
qed

declare fasta_records.simps [simp del]
declare fasta_SequenceBytes_loop.simps [simp del]

lemma fasta_records_stop:
  "fasta_Next f = (False, f1) \<Longrightarrow> fasta_records f = Inr ([], f1)"
  by (simp add: fasta_records.simps [of f])

lemma fasta_records_step:
  assumes "fasta_Next f = (True, f1)" and "fasta_Identifier f1 = Inr ident"
    and "fasta_Sequence_loop f1 [] = (seq, f2)"
  shows "fasta_records f =
     (case fasta_records f2 of
        Inl p \<Rightarrow> Inl p
      | Inr (rs, f3) \<Rightarrow> Inr (\<lparr>Identifier = ident, Sequence = seq\<rparr> # rs, f3))"
  using assms by (simp add: fasta_records.simps [of f] fasta_Sequence_def)

lemma fasta_SequenceBytes_loop_header:
  assumes "ReadSlice CHR ''\<newline>'' (br f) = (l, e, r)" and "e = None \<or> e = Some ErrBufferFull"
    and "1 < length l" and "hd l = CHR ''>''"
  shows "fasta_SequenceBytes_loop f out =
    (None, out, f\<lparr>br := r, lastBytes := l, lastErr := None, identifierBytes := l\<rparr>)"
  using assms by (auto simp: fasta_SequenceBytes_loop.simps [of f out])

lemma fasta_SequenceBytes_loop_cont:
  assumes "ReadSlice CHR ''\<newline>'' (br f) = (l, e, r)" and "e = None \<or> e = Some ErrBufferFull"
    and "1 < length l" and "hd l \<noteq> CHR ''>''"
  shows "fasta_SequenceBytes_loop f out =
    fasta_SequenceBytes_loop (f\<lparr>br := r, lastBytes := l, lastErr := None\<rparr>) (out @ butlast l)"
  using assms by (auto simp: fasta_SequenceBytes_loop.simps [of f out])

lemma fasta_SequenceBytes_loop_eof:
  assumes "ReadSlice CHR ''\<newline>'' (br f) = ([], Some EOF, r)"
  shows "fasta_SequenceBytes_loop f out = (None, out, f\<lparr>br := r, lastBytes := [], lastErr := Some EOF\<rparr>)"
  using assms by (auto simp: fasta_SequenceBytes_loop.simps [of f out])

lemma defaultBufSize_gt [simp]: "0 < defaultBufSize" "Suc 0 < defaultBufSize"
  by (simp_all add: defaultBufSize_def)

lemma long_line_Next:
  "fasta_Next (new_fastFastaReader (stream_of long_line_example)) =
     (True, \<lparr>br = stream_of (replicate defaultBufSize CHR ''A'' @ ''A\<newline>''), lastErr = None,
             identifierBytes = ''>s\<newline>'', lastBytes = [], fileClosed = False\<rparr>)"
proof -
  have "replicate (Suc defaultBufSize) CHR ''A'' = replicate defaultBufSize CHR ''A'' @ ''A''"
    using replicate_append_same [of defaultBufSize "CHR ''A''"] by simp
  then show ?thesis
    by (simp add: fasta_Next_def new_fastFastaReader_def stream_of_def long_line_example_def
        ReadBytes_def)
qed

lemma long_line_Sequence:
  assumes "br f = stream_of (replicate defaultBufSize CHR ''A'' @ ''A\<newline>'')"
  shows "fasta_Sequence_loop f [] =
     (replicate defaultBufSize CHR ''A'',
      f\<lparr>br := stream_of [], lastBytes := [], lastErr := Some EOF\<rparr>)"
proof -
  let ?f1 = "f\<lparr>br := stream_of ''A\<newline>'', lastBytes := replicate defaultBufSize CHR ''A'', lastErr := None\<rparr>"
  let ?f2 = "?f1\<lparr>br := stream_of [], lastBytes := ''A\<newline>'', lastErr := None\<rparr>"
  have r1: "ReadSlice CHR ''\<newline>'' (br f) =
      (replicate defaultBufSize CHR ''A'', Some ErrBufferFull, stream_of ''A\<newline>'')"
    using ReadSlice_full [of "br f" "replicate defaultBufSize CHR ''A''" "''A\<newline>''"]
    by (simp add: assms stream_of_def)
  have r2: "ReadSlice CHR ''\<newline>'' (br ?f1) = (''A\<newline>'', None, stream_of [])"
    using ReadSlice_line [of "br ?f1" "''A''" "[]"]
    by (simp add: stream_of_def defaultBufSize_def)
  have r3: "ReadSlice CHR ''\<newline>'' (br ?f2) = ([], Some EOF, stream_of [])"
    using ReadSlice_end [of "br ?f2" "[]"]
    by (simp add: stream_of_def defaultBufSize_def readErr_def)
  have b: "butlast (replicate defaultBufSize CHR ''A'') @ ''A'' = replicate defaultBufSize CHR ''A''"
    using append_butlast_last_id [of "replicate defaultBufSize CHR ''A''"]
    by (simp add: defaultBufSize_def)
  have "fasta_Sequence_loop f [] = fasta_Sequence_loop ?f1 (butlast (replicate defaultBufSize CHR ''A''))"
    using fasta_Sequence_loop_cont [OF r1, of "[]"] by simp
  also have "\<dots> = fasta_Sequence_loop ?f2 (replicate defaultBufSize CHR ''A'')"
    using fasta_Sequence_loop_cont [OF r2, of "butlast (replicate defaultBufSize CHR ''A'')"] by (simp add: b)
  also have "\<dots> = (replicate defaultBufSize CHR ''A'', ?f2\<lparr>br := stream_of [], lastBytes := [], lastErr := Some EOF\<rparr>)"
    using fasta_Sequence_loop_stop [OF r3, of "replicate defaultBufSize CHR ''A''"] by simp
  finally show ?thesis by simp
qed

lemma long_line_SequenceBytes:
  assumes "br f = stream_of (replicate defaultBufSize CHR ''A'' @ ''A\<newline>'')"
  shows "fasta_SequenceBytes_loop f [] =
     (None, replicate defaultBufSize CHR ''A'',
      f\<lparr>br := stream_of [], lastBytes := [], lastErr := Some EOF\<rparr>)"
proof -
  let ?f1 = "f\<lparr>br := stream_of ''A\<newline>'', lastBytes := replicate defaultBufSize CHR ''A'', lastErr := None\<rparr>"
  let ?f2 = "?f1\<lparr>br := stream_of [], lastBytes := ''A\<newline>'', lastErr := None\<rparr>"
  have r1: "ReadSlice CHR ''\<newline>'' (br f) =
      (replicate defaultBufSize CHR ''A'', Some ErrBufferFull, stream_of ''A\<newline>'')"
    using ReadSlice_full [of "br f" "replicate defaultBufSize CHR ''A''" "''A\<newline>''"]
    by (simp add: assms stream_of_def)
  have r2: "ReadSlice CHR ''\<newline>'' (br ?f1) = (''A\<newline>'', None, stream_of [])"
    using ReadSlice_line [of "br ?f1" "''A''" "[]"]
    by (simp add: stream_of_def defaultBufSize_def)
  have r3: "ReadSlice CHR ''\<newline>'' (br ?f2) = ([], Some EOF, stream_of [])"
    using ReadSlice_end [of "br ?f2" "[]"]
    by (simp add: stream_of_def defaultBufSize_def readErr_def)
  have b: "butlast (replicate defaultBufSize CHR ''A'') @ ''A'' = replicate defaultBufSize CHR ''A''"
    using append_butlast_last_id [of "replicate defaultBufSize CHR ''A''"]
    by (simp add: defaultBufSize_def)
  have "fasta_SequenceBytes_loop f [] =
      fasta_SequenceBytes_loop ?f1 (butlast (replicate defaultBufSize CHR ''A''))"
    using fasta_SequenceBytes_loop_cont [OF r1, of "[]"] by simp
  also have "\<dots> = fasta_SequenceBytes_loop ?f2 (replicate defaultBufSize CHR ''A'')"
    using fasta_SequenceBytes_loop_cont [OF r2, of "butlast (replicate defaultBufSize CHR ''A'')"]
    by (simp add: b)
  also have "\<dots> = (None, replicate defaultBufSize CHR ''A'',
      ?f2\<lparr>br := stream_of [], lastBytes := [], lastErr := Some EOF\<rparr>)"
    using fasta_SequenceBytes_loop_eof [OF r3, of "replicate defaultBufSize CHR ''A''"] by simp
  finally show ?thesis by simp
qed

text \<open>
  Claim C2. The claim: a sequence line longer than the read-ahead buffer is still
  returned whole by \<^verbatim>\<open>Sequence()\<close> and \<^verbatim>\<open>SequenceBytes\<close>. On a FASTA file whose only
  sequence line has one byte more than the buffer holds (4097 times \<open>A\<close>), both return
  4096 bytes: \<^verbatim>\<open>ReadSlice\<close> hands out the full buffer with \<^verbatim>\<open>ErrBufferFull\<close>, the decoder
  clears the error and goes on, but it drops the last byte of the chunk as if it were
  the line terminator.
\<close>

theorem long_line_loses_a_byte:
  "fst (fasta_Sequence (snd (fasta_Next (new_fastFastaReader (stream_of long_line_example))))) =
     replicate defaultBufSize CHR ''A''
   \<and> fst (snd (fasta_SequenceBytes
        (snd (fasta_Next (new_fastFastaReader (stream_of long_line_example)))))) =
     replicate defaultBufSize CHR ''A''
   \<and> convertFile (Inr (stream_of long_line_example)) =
     Inr [\<lparr>Identifier = ''s'', Sequence = replicate defaultBufSize CHR ''A''\<rparr>]
   \<and> length (replicate defaultBufSize CHR ''A'') = 4096
   \<and> length long_line_example = 3 + 4097 + 1"
proof -
  let ?f0 = "new_fastFastaReader (stream_of long_line_example)"
  let ?f1 = "\<lparr>br = stream_of (replicate defaultBufSize CHR ''A'' @ ''A\<newline>''), lastErr = None,
             identifierBytes = ''>s\<newline>'', lastBytes = [], fileClosed = False\<rparr>"
  let ?f2 = "?f1\<lparr>br := stream_of [], lastBytes := [], lastErr := Some EOF\<rparr>"
  note nx = long_line_Next
  have sq: "fasta_Sequence_loop ?f1 [] = (replicate defaultBufSize CHR ''A'', ?f2)"
    using long_line_Sequence [of ?f1] by simp
  have sb: "fasta_SequenceBytes_loop ?f1 [] = (None, replicate defaultBufSize CHR ''A'', ?f2)"
    using long_line_SequenceBytes [of ?f1] by simp
  have ident: "fasta_Identifier ?f1 = Inr ''s''"
    by (simp add: fasta_Identifier_def)
  have "fasta_Next ?f2 = (False, ?f2\<lparr>fileClosed := True\<rparr>)"
    by (simp add: fasta_Next_def)
  then have fin: "fasta_records ?f2 = Inr ([], ?f2\<lparr>fileClosed := True\<rparr>)"
    by (rule fasta_records_stop)
  have recs: "fasta_records ?f0 =
      Inr ([\<lparr>Identifier = ''s'', Sequence = replicate defaultBufSize CHR ''A''\<rparr>], ?f2\<lparr>fileClosed := True\<rparr>)"
    using fasta_records_step [OF nx ident sq] fin by simp
  have op: "Open (Inr (stream_of long_line_example)) = (Some (Fasta ?f0), None)"
    by (simp add: Open_def Peek1_def stream_of_def long_line_example_def)
  have cf: "convertFile (Inr (stream_of long_line_example)) =
     Inr [\<lparr>Identifier = ''s'', Sequence = replicate defaultBufSize CHR ''A''\<rparr>]"
    by (simp add: convertFile_def op recs after_loop_def fasta_Err_def)
  from nx sq sb cf show ?thesis
    by (simp add: fasta_Sequence_def fasta_SequenceBytes_def)
       (simp add: defaultBufSize_def long_line_example_def)
qed

section \<open>Wrapped quality blocks\<close>

text \<open>
  Claim C3. The claim: between two records the decoder skips exactly as many quality
  bytes as the sequence just emitted has bytes, however the quality block is wrapped.
  In the example the first record has the five bases \<open>ACGTA\<close> on two lines and its five
  quality scores \<open>IIII@\<close> wrapped the same way. \<^verbatim>\<open>Next\<close> discards five bytes, \<open>IIII\<close>
  and the newline, and takes the second quality line \<open>@\<close> for the next header: four
  quality bytes were skipped, not five, and the record \<open>r2\<close> is never exposed.
\<close>

theorem fastq_quality_line_taken_as_header:
  "Open (Inr (stream_of wrapped_quality_example)) =
     (Some (Fastq (new_fastFastqReader (stream_of wrapped_quality_example))), None)
   \<and> fastq_Sequence (snd (fastq_Next (new_fastFastqReader (stream_of wrapped_quality_example)))) =
     (''ACGTA'',
      \<lparr>br = stream_of ''IIII\<newline>@\<newline>@r2\<newline>GG\<newline>+\<newline>II\<newline>'', lastErr = None,
       identifierBytes = ''@r1\<newline>'', lastBytes = ''+\<newline>'', fileClosed = False,
       lastSeqLen = 5\<rparr>)
   \<and> fastq_Next
       \<lparr>br = stream_of ''IIII\<newline>@\<newline>@r2\<newline>GG\<newline>+\<newline>II\<newline>'', lastErr = None,
        identifierBytes = ''@r1\<newline>'', lastBytes = ''+\<newline>'', fileClosed = False,
        lastSeqLen = 5\<rparr> =
     (True,
      \<lparr>br = stream_of ''@r2\<newline>GG\<newline>+\<newline>II\<newline>'', lastErr = None,
       identifierBytes = ''@\<newline>'', lastBytes = ''+\<newline>'', fileClosed = False,
       lastSeqLen = 0\<rparr>)
   \<and> convertFile (Inr (stream_of wrapped_quality_example)) =
     Inr [\<lparr>Identifier = ''r1'', Sequence = ''ACGTA''\<rparr>,
          \<lparr>Identifier = [], Sequence = ''@r2GG''\<rparr>]"
proof -
  have 1: "Open (Inr (stream_of wrapped_quality_example)) =
     (Some (Fastq (new_fastFastqReader (stream_of wrapped_quality_example))), None)"
    by code_simp
  have 2: "fastq_Sequence (snd (fastq_Next (new_fastFastqReader (stream_of wrapped_quality_example)))) =
     (''ACGTA'',
      \<lparr>br = stream_of ''IIII\<newline>@\<newline>@r2\<newline>GG\<newline>+\<newline>II\<newline>'', lastErr = None,
       identifierBytes = ''@r1\<newline>'', lastBytes = ''+\<newline>'', fileClosed = False,
       lastSeqLen = 5\<rparr>)"
    by code_simp
  have 3: "fastq_Next
       \<lparr>br = stream_of ''IIII\<newline>@\<newline>@r2\<newline>GG\<newline>+\<newline>II\<newline>'', lastErr = None,
        identifierBytes = ''@r1\<newline>'', lastBytes = ''+\<newline>'', fileClosed = False,
        lastSeqLen = 5\<rparr> =
     (True,
      \<lparr>br = stream_of ''@r2\<newline>GG\<newline>+\<newline>II\<newline>'', lastErr = None,
       identifierBytes = ''@\<newline>'', lastBytes = ''+\<newline>'', fileClosed = False,
       lastSeqLen = 0\<rparr>)"
    by code_simp
  have 4: "convertFile (Inr (stream_of wrapped_quality_example)) =
     Inr [\<lparr>Identifier = ''r1'', Sequence = ''ACGTA''\<rparr>,
          \<lparr>Identifier = [], Sequence = ''@r2GG''\<rparr>]"
    by code_simp
  from 1 2 3 4 show ?thesis by blast
qed

section \<open>The round trip through the writer\<close>

lemma text_of_lines_simps [simp]:
  "text_of_lines [] = []"
  "text_of_lines (l # ls) = l @ CHR ''\<newline>'' # text_of_lines ls"
  by (simp_all add: text_of_lines_def)

lemma fasta_line_plain:
  "CHR ''>'' \<notin> set l \<Longrightarrow> CHR ''\<newline>'' \<notin> set l \<Longrightarrow> fasta_line l"
  by (auto simp: fasta_line_def split: list.splits)

lemma fasta_line_no_marker:
  "fasta_line l \<Longrightarrow> l = [] \<or> hd l \<noteq> CHR ''>'' \<Longrightarrow> CHR ''>'' \<notin> set l"
  by (auto simp: fasta_line_def split: list.splits if_splits)

lemma fasta_line_no_newline: "fasta_line l \<Longrightarrow> CHR ''\<newline>'' \<notin> set l"
  by (simp add: fasta_line_def)

lemma fasta_line_header_short:
  "fasta_line l \<Longrightarrow> l \<noteq> [] \<Longrightarrow> hd l = CHR ''>'' \<Longrightarrow> length l < defaultBufSize"
  by (auto simp: fasta_line_def split: list.splits if_splits)

lemma ReadBytes_line:
  assumes "unread r = l @ CHR ''\<newline>'' # rest" and "CHR ''\<newline>'' \<notin> set l"
  shows "ReadBytes CHR ''\<newline>'' r = (l @ ''\<newline>'', None, r\<lparr>unread := rest\<rparr>)"
proof -
  have "takeWhile (\<lambda>c. c \<noteq> CHR ''\<newline>'') (unread r) = l"
    using assms(2) by (auto simp: assms(1) takeWhile_append)
  moreover have "dropWhile (\<lambda>c. c \<noteq> CHR ''\<newline>'') (unread r) = CHR ''\<newline>'' # rest"
    using assms(2) by (auto simp: assms(1) dropWhile_append)
  ultimately show ?thesis
    by (simp add: ReadBytes_def Let_def assms(1))
qed

lemma fasta_Sequence_loop_valid:
  assumes "unread (br f) = text_of_lines ls" and "list_all fasta_line ls" and "\<not> broken (br f)"
    and "CHR ''>'' \<notin> set acc" and "CHR ''\<newline>'' \<notin> set acc"
    and "fasta_Sequence_loop f acc = (seq, f2)"
  shows "CHR ''>'' \<notin> set seq \<and> CHR ''\<newline>'' \<notin> set seq \<and> (lastErr f2 = Some EOF \<or> at_header f2)"
  using assms
proof (induction "length (unread (br f))" arbitrary: f ls acc rule: less_induct)
  case less
  show ?case
  proof (cases ls)
    case Nil
    with less.prems have u: "unread (br f) = []" by simp
    have "ReadSlice CHR ''\<newline>'' (br f) = ([], Some EOF, (br f)\<lparr>unread := []\<rparr>)"
      using ReadSlice_end [OF u] less.prems(3) by (simp add: readErr_def)
    from fasta_Sequence_loop_stop [OF this, of acc] less.prems show ?thesis
      by auto
  next
    case (Cons l ls')
    with less.prems have u: "unread (br f) = l @ CHR ''\<newline>'' # text_of_lines ls'"
      and fl: "fasta_line l" and fls: "list_all fasta_line ls'"
      by simp_all
    note nl = fasta_line_no_newline [OF fl]
    show ?thesis
    proof (cases "length l < defaultBufSize")
      case True
      let ?r = "(br f)\<lparr>unread := text_of_lines ls'\<rparr>"
      have rs: "ReadSlice CHR ''\<newline>'' (br f) = (l @ ''\<newline>'', None, ?r)"
        by (rule ReadSlice_line [OF u nl True])
      show ?thesis
      proof (cases "l \<noteq> [] \<and> hd l = CHR ''>''")
        case True
        then have "hd (l @ ''\<newline>'') = CHR ''>''" by simp
        from fasta_Sequence_loop_header [OF rs _ _ this, of acc] less.prems(6)
        have seq: "seq = acc"
          and f2: "f2 = f\<lparr>br := ?r, lastBytes := l @ ''\<newline>'', lastErr := None,
                          identifierBytes := l @ ''\<newline>''\<rparr>"
          by simp_all
        have "at_header f2"
          unfolding at_header_def using True fl fls less.prems(3) by (auto simp: f2)
        with less.prems seq show ?thesis by simp
      next
        case False
        then have hd: "hd (l @ ''\<newline>'') \<noteq> CHR ''>''"
          by (cases l) auto
        from False have nm: "CHR ''>'' \<notin> set l"
          using fasta_line_no_marker [OF fl] by blast
        let ?f1 = "f\<lparr>br := ?r, lastBytes := l @ ''\<newline>'', lastErr := None\<rparr>"
        from fasta_Sequence_loop_cont [OF rs _ _ hd, of acc] less.prems(6)
        have rec: "fasta_Sequence_loop ?f1 (acc @ l) = (seq, f2)"
          by simp
        have shorter: "length (unread (br ?f1)) < length (unread (br f))"
          by (simp add: u)
        from less.hyps [OF shorter _ fls _ _ _ rec] nm nl less.prems(3,4,5)
        show ?thesis by simp
      qed
    next
      case False
      let ?n = defaultBufSize
      from False have long: "?n \<le> length l" by simp
      then have ne: "l \<noteq> []" by (auto simp: defaultBufSize_def)
      have "hd l \<noteq> CHR ''>''"
        using fasta_line_header_short [OF fl ne] False by blast
      then have nm: "CHR ''>'' \<notin> set l"
        using fasta_line_no_marker [OF fl] by blast
      let ?rest = "drop ?n l @ CHR ''\<newline>'' # text_of_lines ls'"
      let ?r = "(br f)\<lparr>unread := ?rest\<rparr>"
      have u': "unread (br f) = take ?n l @ ?rest"
        by (simp add: u)
      have tk: "CHR ''\<newline>'' \<notin> set (take ?n l)" "CHR ''>'' \<notin> set (take ?n l)"
        using nl nm by (auto dest: in_set_takeD)
      have rs: "ReadSlice CHR ''\<newline>'' (br f) = (take ?n l, Some ErrBufferFull, ?r)"
        using ReadSlice_full [OF u' tk(1)] long by simp
      have tne: "take ?n l \<noteq> []" using ne by simp
      have hd: "hd (take ?n l) \<noteq> CHR ''>''"
        using tk(2) tne by (metis hd_in_set)
      let ?f1 = "f\<lparr>br := ?r, lastBytes := take ?n l, lastErr := None\<rparr>"
      from fasta_Sequence_loop_cont [OF rs _ tne hd, of acc] less.prems(6)
      have rec: "fasta_Sequence_loop ?f1 (acc @ butlast (take ?n l)) = (seq, f2)"
        by simp
      have shorter: "length (unread (br ?f1)) < length (unread (br f))"
        using long ne by (simp add: u defaultBufSize_def)
      have dl: "fasta_line (drop ?n l)"
        using nl nm by (intro fasta_line_plain) (auto dest: in_set_dropD)
      have u1: "unread (br ?f1) = text_of_lines (drop ?n l # ls')"
        by simp
      have acc': "CHR ''>'' \<notin> set (acc @ butlast (take ?n l))"
        "CHR ''\<newline>'' \<notin> set (acc @ butlast (take ?n l))"
        using tk less.prems(4,5) by (auto dest: in_set_butlastD)
      from less.hyps [OF shorter u1 _ _ acc' rec] dl fls less.prems(3)
      show ?thesis by simp
    qed
  qed
qed

lemma fasta_Next_at_header:
  "at_header f \<Longrightarrow> fasta_Next f = (True, f)"
  by (auto simp: at_header_def fasta_Next_def)

lemma fasta_Identifier_at_header:
  "identifierBytes f = h @ ''\<newline>'' \<Longrightarrow> h \<noteq> [] \<Longrightarrow> fasta_Identifier f = Inr (tl h)"
  by (cases h) (auto simp: fasta_Identifier_def)

lemma fasta_records_at_end:
  "lastErr f = Some EOF \<Longrightarrow> fasta_records f = Inr ([], f\<lparr>fileClosed := True\<rparr>)"
  by (rule fasta_records_stop) (simp add: fasta_Next_def)

lemma fasta_records_valid:
  assumes "at_header f"
  shows "\<exists>recs f'. fasta_records f = Inr (recs, f') \<and> lastErr f' = Some EOF \<and> recs \<noteq> [] \<and>
           list_all good_record recs"
  using assms
proof (induction "length (unread (br f))" arbitrary: f rule: less_induct)
  case less
  from less.prems obtain h ls where
    f: "lastErr f = None" "\<not> broken (br f)" "identifierBytes f = h @ ''\<newline>''" "h \<noteq> []"
       "hd h = CHR ''>''" "fasta_line h" "unread (br f) = text_of_lines ls" "list_all fasta_line ls"
    by (auto simp: at_header_def)
  note nx = fasta_Next_at_header [OF less.prems]
  note ident = fasta_Identifier_at_header [OF f(3,4)]
  obtain seq f2 where sq: "fasta_Sequence_loop f [] = (seq, f2)"
    by (cases "fasta_Sequence_loop f []") auto
  from fasta_Sequence_loop_valid [OF f(7,8,2) _ _ sq]
  have seq: "CHR ''>'' \<notin> set seq" "CHR ''\<newline>'' \<notin> set seq"
    and f2: "lastErr f2 = Some EOF \<or> at_header f2"
    by simp_all
  let ?r = "\<lparr>Identifier = tl h, Sequence = seq\<rparr>"
  have good: "good_record ?r"
    using seq f(4,6) fasta_line_header_short [OF f(6,4,5)] fasta_line_no_newline [OF f(6)]
    by (cases h) (auto simp: good_record_def)
  note step = fasta_records_step [OF nx ident sq]
  from f2 show ?case
  proof
    assume "lastErr f2 = Some EOF"
    from fasta_records_at_end [OF this] step good \<open>lastErr f2 = Some EOF\<close>
    show ?thesis by simp
  next
    assume ah: "at_header f2"
    then have "lastErr f2 = None" by (simp add: at_header_def)
    with fasta_Sequence_loop_progress [OF sq]
    have "length (unread (br f2)) < length (unread (br f))" by simp
    from less.hyps [OF this ah] obtain recs f' where
      "fasta_records f2 = Inr (recs, f')" "lastErr f' = Some EOF" "list_all good_record recs"
      by blast
    with step good show ?thesis by simp
  qed
qed

lemma fasta_records_Next:
  assumes "fasta_Next f = (True, f1)"
  shows "fasta_records f = fasta_records f1"
proof -
  from assms have "fasta_Next f1 = (True, f1)"
    by (auto simp: fasta_Next_def Let_def split: if_splits prod.splits)
  with assms show ?thesis
    by (simp add: fasta_records.simps [of f] fasta_records.simps [of f1])
qed

lemma convertFile_valid:
  assumes "valid_fasta ls"
  shows "\<exists>recs. convertFile (Inr (stream_of (text_of_lines ls))) = Inr recs \<and> recs \<noteq> [] \<and>
           list_all good_record recs"
proof -
  from assms obtain l ls' where ls: "ls = l # ls'" and l: "l \<noteq> []" "hd l = CHR ''>''"
    and fl: "fasta_line l" and fls: "list_all fasta_line ls'"
    by (auto simp: valid_fasta_def split: list.splits)
  let ?text = "text_of_lines ls"
  let ?f0 = "new_fastFastaReader (stream_of ?text)"
  let ?f1 = "?f0\<lparr>br := (stream_of ?text)\<lparr>unread := text_of_lines ls'\<rparr>,
                 identifierBytes := l @ ''\<newline>'', lastErr := None\<rparr>"
  from l obtain cs where lc: "l = CHR ''>'' # cs" by (cases l) auto
  have op: "Open (Inr (stream_of ?text)) = (Some (Fasta ?f0), None)"
    by (simp add: Open_def Peek1_def stream_of_def ls lc)
  have "ReadBytes CHR ''\<newline>'' (stream_of ?text) =
      (l @ ''\<newline>'', None, (stream_of ?text)\<lparr>unread := text_of_lines ls'\<rparr>)"
    by (rule ReadBytes_line) (simp_all add: stream_of_def ls fasta_line_no_newline [OF fl])
  then have nx: "fasta_Next ?f0 = (True, ?f1)"
    using l by (simp add: fasta_Next_def new_fastFastaReader_def)
  have "at_header ?f1"
    unfolding at_header_def using l fl fls
    by (auto simp: new_fastFastaReader_def stream_of_def)
  from fasta_records_valid [OF this] obtain recs f' where
    r: "fasta_records ?f1 = Inr (recs, f')" "lastErr f' = Some EOF" "recs \<noteq> []"
       "list_all good_record recs"
    by blast
  have "convertFile (Inr (stream_of ?text)) = Inr recs"
    using r(1,2) by (simp add: convertFile_def op fasta_records_Next [OF nx] after_loop_def fasta_Err_def)
  with r show ?thesis by blast
qed

lemma fasta_Sequence_loop_written:
  assumes "CHR ''>'' \<notin> set s" and "CHR ''\<newline>'' \<notin> set s"
    and "unread (br f) = write_sequence s @ rest"
  shows "\<exists>lb. fasta_Sequence_loop f acc =
           fasta_Sequence_loop (f\<lparr>br := (br f)\<lparr>unread := rest\<rparr>, lastBytes := lb, lastErr := None\<rparr>)
             (acc @ s)"
  using assms
proof (induction s arbitrary: f acc rule: write_sequence.induct)
  case (1 s)
  show ?case
  proof (cases "80 < length s")
    case True
    let ?l = "take 80 s"
    let ?rest = "write_sequence (drop 80 s) @ rest"
    let ?f1 = "f\<lparr>br := (br f)\<lparr>unread := ?rest\<rparr>, lastBytes := ?l @ ''\<newline>'', lastErr := None\<rparr>"
    from True "1.prems"(3) have u: "unread (br f) = ?l @ CHR ''\<newline>'' # ?rest"
      by (simp add: write_sequence.simps [of s])
    have l: "CHR ''\<newline>'' \<notin> set ?l" "CHR ''>'' \<notin> set ?l"
      using "1.prems"(1,2) by (auto dest: in_set_takeD)
    from True have len: "length ?l < defaultBufSize" and ne: "?l \<noteq> []"
      by (auto simp: defaultBufSize_def)
    have hd: "hd (?l @ ''\<newline>'') \<noteq> CHR ''>''"
      using l(2) ne by (metis hd_append2 hd_in_set)
    have rs: "ReadSlice CHR ''\<newline>'' (br f) = (?l @ ''\<newline>'', None, (br f)\<lparr>unread := ?rest\<rparr>)"
      by (rule ReadSlice_line [OF u l(1) len])
    have step: "fasta_Sequence_loop f acc = fasta_Sequence_loop ?f1 (acc @ ?l)"
      using fasta_Sequence_loop_cont [OF rs _ _ hd, of acc] by simp
    have d: "CHR ''>'' \<notin> set (drop 80 s)" "CHR ''\<newline>'' \<notin> set (drop 80 s)"
      using "1.prems"(1,2) by (auto dest: in_set_dropD)
    from "1.IH" [OF True d, of ?f1 "acc @ ?l"] obtain lb where
      "fasta_Sequence_loop ?f1 (acc @ ?l) =
         fasta_Sequence_loop (?f1\<lparr>br := (br ?f1)\<lparr>unread := rest\<rparr>, lastBytes := lb, lastErr := None\<rparr>)
           ((acc @ ?l) @ drop 80 s)"
      by auto
    with step show ?thesis
      by (intro exI [of _ lb]) simp
  next
    case False
    let ?f1 = "f\<lparr>br := (br f)\<lparr>unread := rest\<rparr>, lastBytes := s @ ''\<newline>'', lastErr := None\<rparr>"
    from False "1.prems"(3) have u: "unread (br f) = s @ CHR ''\<newline>'' # rest"
      by (simp add: write_sequence.simps [of s])
    from False have len: "length s < defaultBufSize"
      by (auto simp: defaultBufSize_def)
    have hd: "hd (s @ ''\<newline>'') \<noteq> CHR ''>''"
      using "1.prems"(1) by (cases s) auto
    have rs: "ReadSlice CHR ''\<newline>'' (br f) = (s @ ''\<newline>'', None, (br f)\<lparr>unread := rest\<rparr>)"
      by (rule ReadSlice_line [OF u "1.prems"(2) len])
    have "fasta_Sequence_loop f acc = fasta_Sequence_loop ?f1 (acc @ s)"
      using fasta_Sequence_loop_cont [OF rs _ _ hd, of acc] by simp
    then show ?thesis
      by (intro exI [of _ "s @ ''\<newline>''"])
  qed
qed

lemma fasta_Sequence_loop_at_end:
  assumes "unread (br f) = []" and "\<not> broken (br f)"
  shows "fasta_Sequence_loop f acc =
           (acc, f\<lparr>br := (br f)\<lparr>unread := []\<rparr>, lastBytes := [], lastErr := Some EOF\<rparr>)"
proof -
  have "ReadSlice CHR ''\<newline>'' (br f) = ([], Some EOF, (br f)\<lparr>unread := []\<rparr>)"
    using ReadSlice_end [OF assms(1)] assms(2) by (simp add: readErr_def)
  from fasta_Sequence_loop_stop [OF this, of acc] show ?thesis by simp
qed

lemma fasta_Sequence_loop_at_written_header:
  assumes "unread (br f) = (CHR ''>'' # h) @ CHR ''\<newline>'' # rest"
    and "CHR ''\<newline>'' \<notin> set h" and "length h + 2 \<le> defaultBufSize"
  shows "fasta_Sequence_loop f acc =
           (acc, f\<lparr>br := (br f)\<lparr>unread := rest\<rparr>, lastBytes := CHR ''>'' # h @ ''\<newline>'',
                   lastErr := None, identifierBytes := CHR ''>'' # h @ ''\<newline>''\<rparr>)"
proof -
  have "ReadSlice CHR ''\<newline>'' (br f) =
      ((CHR ''>'' # h) @ ''\<newline>'', None, (br f)\<lparr>unread := rest\<rparr>)"
    using assms by (intro ReadSlice_line) auto
  from fasta_Sequence_loop_header [OF this, of acc] show ?thesis by simp
qed

lemma fasta_records_written:
  assumes "list_all good_record (r # rs)" and "lastErr f = None"
    and "identifierBytes f = CHR ''>'' # Identifier r @ ''\<newline>''"
    and "unread (br f) = write_sequence (Sequence r) @ seqWriter rs" and "\<not> broken (br f)"
  shows "\<exists>f'. fasta_records f = Inr (r # rs, f') \<and> lastErr f' = Some EOF"
  using assms
proof (induction rs arbitrary: f r)
  case Nil
  from Nil.prems have good: "good_record r" by simp
  have nx: "fasta_Next f = (True, f)"
    using Nil.prems by (simp add: fasta_Next_def)
  have ident: "fasta_Identifier f = Inr (Identifier r)"
    using Nil.prems by (simp add: fasta_Identifier_def)
  from good have s: "CHR ''>'' \<notin> set (Sequence r)" "CHR ''\<newline>'' \<notin> set (Sequence r)"
    by (simp_all add: good_record_def)
  from fasta_Sequence_loop_written [OF s, of f "[]" "[]"] Nil.prems obtain lb where
    "fasta_Sequence_loop f [] =
       fasta_Sequence_loop (f\<lparr>br := (br f)\<lparr>unread := []\<rparr>, lastBytes := lb, lastErr := None\<rparr>)
         (Sequence r)"
    by auto
  also have "\<dots> = (Sequence r,
      f\<lparr>br := (br f)\<lparr>unread := []\<rparr>, lastBytes := [], lastErr := Some EOF\<rparr>)"
    using Nil.prems(5) by (subst fasta_Sequence_loop_at_end) simp_all
  finally have sq: "fasta_Sequence_loop f [] = (Sequence r,
      f\<lparr>br := (br f)\<lparr>unread := []\<rparr>, lastBytes := [], lastErr := Some EOF\<rparr>)" .
  from fasta_records_step [OF nx ident sq] show ?case
    by (simp add: fasta_records_at_end)
next
  case (Cons r' rs)
  from Cons.prems have good: "good_record r" "good_record r'" "list_all good_record (r' # rs)"
    by simp_all
  have nx: "fasta_Next f = (True, f)"
    using Cons.prems by (simp add: fasta_Next_def)
  have ident: "fasta_Identifier f = Inr (Identifier r)"
    using Cons.prems by (simp add: fasta_Identifier_def)
  from good have s: "CHR ''>'' \<notin> set (Sequence r)" "CHR ''\<newline>'' \<notin> set (Sequence r)"
    and h: "CHR ''\<newline>'' \<notin> set (Identifier r')" "length (Identifier r') + 2 \<le> defaultBufSize"
    by (simp_all add: good_record_def)
  let ?rest = "write_sequence (Sequence r') @ seqWriter rs"
  have w: "seqWriter (r' # rs) = (CHR ''>'' # Identifier r') @ CHR ''\<newline>'' # ?rest"
    by (simp add: write_record_def)
  from fasta_Sequence_loop_written [OF s, of f "seqWriter (r' # rs)" "[]"] Cons.prems obtain lb where
    "fasta_Sequence_loop f [] =
       fasta_Sequence_loop (f\<lparr>br := (br f)\<lparr>unread := seqWriter (r' # rs)\<rparr>, lastBytes := lb,
                               lastErr := None\<rparr>) (Sequence r)"
    (is "_ = fasta_Sequence_loop ?g _")
    by auto
  also have "\<dots> = (Sequence r,
      ?g\<lparr>br := (br ?g)\<lparr>unread := ?rest\<rparr>, lastBytes := CHR ''>'' # Identifier r' @ ''\<newline>'',
         lastErr := None, identifierBytes := CHR ''>'' # Identifier r' @ ''\<newline>''\<rparr>)"
    (is "_ = (_, ?f2)")
    by (rule fasta_Sequence_loop_at_written_header [OF _ h]) (simp add: write_record_def)
  finally have sq: "fasta_Sequence_loop f [] = (Sequence r, ?f2)" .
  have "\<exists>f'. fasta_records ?f2 = Inr (r' # rs, f') \<and> lastErr f' = Some EOF"
    using Cons.prems(5) by (intro Cons.IH [OF good(3)]) simp_all
  then obtain f' where "fasta_records ?f2 = Inr (r' # rs, f')" "lastErr f' = Some EOF"
    by blast
  with fasta_records_step [OF nx ident sq] show ?case
    by simp
qed

lemma convertFile_written:
  assumes "recs \<noteq> []" and "list_all good_record recs"
  shows "convertFile (Inr (stream_of (seqWriter recs))) = Inr recs"
proof -
  from assms(1) obtain r rs where recs: "recs = r # rs" by (cases recs) auto
  with assms(2) have good: "good_record r" by simp
  let ?rest = "write_sequence (Sequence r) @ seqWriter rs"
  have w: "seqWriter recs = (CHR ''>'' # Identifier r) @ CHR ''\<newline>'' # ?rest"
    by (simp add: recs write_record_def)
  let ?f0 = "new_fastFastaReader (stream_of (seqWriter recs))"
  let ?f1 = "?f0\<lparr>br := (stream_of (seqWriter recs))\<lparr>unread := ?rest\<rparr>,
                 identifierBytes := (CHR ''>'' # Identifier r) @ ''\<newline>'', lastErr := None\<rparr>"
  have op: "Open (Inr (stream_of (seqWriter recs))) = (Some (Fasta ?f0), None)"
    by (simp add: Open_def Peek1_def stream_of_def w)
  have "ReadBytes CHR ''\<newline>'' (stream_of (seqWriter recs)) =
      ((CHR ''>'' # Identifier r) @ ''\<newline>'', None, (stream_of (seqWriter recs))\<lparr>unread := ?rest\<rparr>)"
    using good by (intro ReadBytes_line) (auto simp: stream_of_def w good_record_def)
  then have nx: "fasta_Next ?f0 = (True, ?f1)"
    by (simp add: fasta_Next_def new_fastFastaReader_def)
  have "\<exists>f'. fasta_records ?f1 = Inr (r # rs, f') \<and> lastErr f' = Some EOF"
    using assms(2) by (intro fasta_records_written) (simp_all add: recs new_fastFastaReader_def stream_of_def)
  then obtain f' where "fasta_records ?f1 = Inr (recs, f')" "lastErr f' = Some EOF"
    by (auto simp: recs)
  then show ?thesis
    by (simp add: convertFile_def op fasta_records_Next [OF nx] after_loop_def fasta_Err_def)
qed

text \<open>
  Claim C7, as amended. For every FASTA text of newline-terminated lines that starts
  with a header line, whose header lines fit into the 4096-byte buffer and whose other
  lines hold no \<open>>\<close>, decoding succeeds, and writing the decoded records with the
  80-column writer and decoding the result gives the same records again.
\<close>

theorem fasta_round_trip:
  assumes "valid_fasta ls"
  shows "\<exists>recs. convertFile (Inr (stream_of (text_of_lines ls))) = Inr recs \<and>
           convertFile (Inr (stream_of (seqWriter recs))) = Inr recs"
proof -
  from convertFile_valid [OF assms] obtain recs where
    "convertFile (Inr (stream_of (text_of_lines ls))) = Inr recs" "recs \<noteq> []"
    "list_all good_record recs"
    by blast
  with convertFile_written [OF this(2,3)] show ?thesis by blast
qed

theorem fasta_round_trip_witness:
  "valid_fasta [''>s1 a>b'', ''ACGT'', [], ''GG'', ''>s2'', ''TT'']
   \<and> (\<exists>recs. convertFile (Inr (stream_of (text_of_lines
                 [''>s1 a>b'', ''ACGT'', [], ''GG'', ''>s2'', ''TT'']))) = Inr recs \<and>
           convertFile (Inr (stream_of (seqWriter recs))) = Inr recs)"
proof -
  have v: "valid_fasta [''>s1 a>b'', ''ACGT'', [], ''GG'', ''>s2'', ''TT'']"
    by (simp add: valid_fasta_def fasta_line_def defaultBufSize_def)
  from fasta_round_trip [OF v] v show ?thesis by blast
qed

lemma fasta_Sequence_loop_line:
  assumes "unread (br f) = l @ CHR ''\<newline>'' # rest" and "CHR ''\<newline>'' \<notin> set l"
    and "length l < defaultBufSize" and "l = [] \<or> hd l \<noteq> CHR ''>''"
  shows "fasta_Sequence_loop f acc =
           fasta_Sequence_loop
             (f\<lparr>br := (br f)\<lparr>unread := rest\<rparr>, lastBytes := l @ ''\<newline>'', lastErr := None\<rparr>) (acc @ l)"
proof -
  have rs: "ReadSlice CHR ''\<newline>'' (br f) = (l @ ''\<newline>'', None, (br f)\<lparr>unread := rest\<rparr>)"
    by (rule ReadSlice_line [OF assms(1-3)])
  have "hd (l @ ''\<newline>'') \<noteq> CHR ''>''"
    using assms(4) by (cases l) auto
  from fasta_Sequence_loop_cont [OF rs _ _ this, of acc] show ?thesis by simp
qed

lemma fasta_Sequence_loop_header_line:
  assumes "unread (br f) = l @ CHR ''\<newline>'' # rest" and "CHR ''\<newline>'' \<notin> set l"
    and "length l < defaultBufSize" and "l \<noteq> []" and "hd l = CHR ''>''"
  shows "fasta_Sequence_loop f acc =
           (acc, f\<lparr>br := (br f)\<lparr>unread := rest\<rparr>, lastBytes := l @ ''\<newline>'', lastErr := None,
                   identifierBytes := l @ ''\<newline>''\<rparr>)"
proof -
  have rs: "ReadSlice CHR ''\<newline>'' (br f) = (l @ ''\<newline>'', None, (br f)\<lparr>unread := rest\<rparr>)"
    by (rule ReadSlice_line [OF assms(1-3)])
  have "hd (l @ ''\<newline>'') = CHR ''>''"
    using assms(4,5) by simp
  from fasta_Sequence_loop_header [OF rs _ _ this, of acc] show ?thesis by simp
qed

lemma fasta_Sequence_loop_header_cut:
  assumes "unread (br f) = l @ rest" and "CHR ''\<newline>'' \<notin> set l"
    and "length l = defaultBufSize" and "hd l = CHR ''>''"
  shows "fasta_Sequence_loop f acc =
           (acc, f\<lparr>br := (br f)\<lparr>unread := rest\<rparr>, lastBytes := l, lastErr := None,
                   identifierBytes := l\<rparr>)"
proof -
  have rs: "ReadSlice CHR ''\<newline>'' (br f) = (l, Some ErrBufferFull, (br f)\<lparr>unread := rest\<rparr>)"
    by (rule ReadSlice_full [OF assms(1-3)])
  have "l \<noteq> []" using assms(3) by (auto simp: defaultBufSize_def)
  from fasta_Sequence_loop_header [OF rs _ this assms(4), of acc] show ?thesis by simp
qed

lemma long_header_first_decoding:
  "convertFile (Inr (stream_of (text_of_lines long_header_example))) = Inr long_header_records"
proof -
  let ?X = "CHR ''>'' # replicate 4095 CHR ''x''"
  let ?Y = "replicate 80 CHR ''y'' @ ''>''"
  let ?text = "text_of_lines long_header_example"
  let ?f0 = "new_fastFastaReader (stream_of ?text)"
  let ?f1 = "?f0\<lparr>br := (stream_of ?text)\<lparr>unread := ?X @ ?Y @ ''\<newline>''\<rparr>,
                 identifierBytes := ''>a\<newline>'', lastErr := None\<rparr>"
  let ?f2 = "?f1\<lparr>br := (br ?f1)\<lparr>unread := ?Y @ ''\<newline>''\<rparr>, lastBytes := ?X, lastErr := None,
                 identifierBytes := ?X\<rparr>"
  let ?f3 = "?f2\<lparr>br := (br ?f2)\<lparr>unread := []\<rparr>, lastBytes := ?Y @ ''\<newline>'', lastErr := None\<rparr>"
  let ?f4 = "?f3\<lparr>br := (br ?f3)\<lparr>unread := []\<rparr>, lastBytes := [], lastErr := Some EOF\<rparr>"
  have tx: "?text = ''>a'' @ CHR ''\<newline>'' # (?X @ ?Y @ ''\<newline>'')"
    by (simp add: long_header_example_def)
  have op: "Open (Inr (stream_of ?text)) = (Some (Fasta ?f0), None)"
    by (simp add: Open_def Peek1_def stream_of_def long_header_example_def)
  have "ReadBytes CHR ''\<newline>'' (stream_of ?text) =
      (''>a'' @ ''\<newline>'', None, (stream_of ?text)\<lparr>unread := ?X @ ?Y @ ''\<newline>''\<rparr>)"
    by (rule ReadBytes_line) (simp_all add: stream_of_def tx)
  then have nx0: "fasta_Next ?f0 = (True, ?f1)"
    by (simp add: fasta_Next_def new_fastFastaReader_def)
  have nx1: "fasta_Next ?f1 = (True, ?f1)"
    by (simp add: fasta_Next_def new_fastFastaReader_def)
  have id1: "fasta_Identifier ?f1 = Inr ''a''"
    by (simp add: fasta_Identifier_def)
  have sq1: "fasta_Sequence_loop ?f1 [] = ([], ?f2)"
    by (rule fasta_Sequence_loop_header_cut) (simp_all add: defaultBufSize_def)
  have nx2: "fasta_Next ?f2 = (True, ?f2)"
    by (simp add: fasta_Next_def new_fastFastaReader_def)
  have "butlast (replicate 4095 CHR ''x'') = replicate 4094 CHR ''x''"
    by (simp add: butlast_conv_take)
  then have id2: "fasta_Identifier ?f2 = Inr (replicate 4094 CHR ''x'')"
    by (simp add: fasta_Identifier_def)
  have "fasta_Sequence_loop ?f2 [] = fasta_Sequence_loop ?f3 ([] @ ?Y)"
    by (rule fasta_Sequence_loop_line) (simp_all add: defaultBufSize_def)
  also have "\<dots> = (?Y, ?f4)"
    using fasta_Sequence_loop_at_end [of ?f3 ?Y]
    by (simp add: new_fastFastaReader_def stream_of_def)
  finally have sq2: "fasta_Sequence_loop ?f2 [] = (?Y, ?f4)" .
  have fin: "fasta_records ?f4 = Inr ([], ?f4\<lparr>fileClosed := True\<rparr>)"
    by (rule fasta_records_at_end) simp
  have "fasta_records ?f2 =
      Inr ([\<lparr>Identifier = replicate 4094 CHR ''x'', Sequence = ?Y\<rparr>], ?f4\<lparr>fileClosed := True\<rparr>)"
    using fasta_records_step [OF nx2 id2 sq2] fin by simp
  then have "fasta_records ?f1 = Inr (long_header_records, ?f4\<lparr>fileClosed := True\<rparr>)"
    using fasta_records_step [OF nx1 id1 sq1] by (simp add: long_header_records_def)
  then show ?thesis
    by (simp add: convertFile_def op fasta_records_Next [OF nx0] after_loop_def fasta_Err_def)
qed

lemma long_header_written:
  "seqWriter long_header_records =
     ''>a'' @ CHR ''\<newline>'' # ([] @ CHR ''\<newline>'' # ((CHR ''>'' # replicate 4094 CHR ''x'') @ CHR ''\<newline>'' #
       (replicate 80 CHR ''y'' @ CHR ''\<newline>'' # (''>'' @ CHR ''\<newline>'' # []))))"
proof -
  have "write_sequence (replicate 80 CHR ''y'' @ ''>'') = replicate 80 CHR ''y'' @ ''\<newline>>\<newline>''"
    by (simp add: write_sequence.simps [of "replicate 80 CHR ''y'' @ ''>''"]
        write_sequence.simps [of "''>''"])
  then show ?thesis
    by (simp add: long_header_records_def write_record_def write_sequence.simps [of "[]"])
qed

lemma long_header_second_decoding:
  "convertFile (Inr (stream_of (seqWriter long_header_records))) =
     Inr [\<lparr>Identifier = ''a'', Sequence = []\<rparr>,
          \<lparr>Identifier = replicate 4094 CHR ''x'', Sequence = replicate 80 CHR ''y''\<rparr>,
          \<lparr>Identifier = [], Sequence = []\<rparr>]"
proof -
  let ?X = "CHR ''>'' # replicate 4094 CHR ''x''"
  let ?Y = "replicate 80 CHR ''y''"
  let ?t4 = "''>'' @ CHR ''\<newline>'' # []"
  let ?t3 = "?Y @ CHR ''\<newline>'' # ?t4"
  let ?t2 = "?X @ CHR ''\<newline>'' # ?t3"
  let ?t1 = "[] @ CHR ''\<newline>'' # ?t2"
  let ?text = "seqWriter long_header_records"
  let ?g0 = "new_fastFastaReader (stream_of ?text)"
  let ?g1 = "?g0\<lparr>br := (stream_of ?text)\<lparr>unread := ?t1\<rparr>,
                 identifierBytes := ''>a\<newline>'', lastErr := None\<rparr>"
  let ?g1a = "?g1\<lparr>br := (br ?g1)\<lparr>unread := ?t2\<rparr>, lastBytes := [] @ ''\<newline>'', lastErr := None\<rparr>"
  let ?g2 = "?g1a\<lparr>br := (br ?g1a)\<lparr>unread := ?t3\<rparr>, lastBytes := ?X @ ''\<newline>'', lastErr := None,
                  identifierBytes := ?X @ ''\<newline>''\<rparr>"
  let ?g2a = "?g2\<lparr>br := (br ?g2)\<lparr>unread := ?t4\<rparr>, lastBytes := ?Y @ ''\<newline>'', lastErr := None\<rparr>"
  let ?g3 = "?g2a\<lparr>br := (br ?g2a)\<lparr>unread := []\<rparr>, lastBytes := ''>'' @ ''\<newline>'', lastErr := None,
                  identifierBytes := ''>'' @ ''\<newline>''\<rparr>"
  let ?g4 = "?g3\<lparr>br := (br ?g3)\<lparr>unread := []\<rparr>, lastBytes := [], lastErr := Some EOF\<rparr>"
  note tx = long_header_written
  have op: "Open (Inr (stream_of ?text)) = (Some (Fasta ?g0), None)"
    by (simp add: Open_def Peek1_def stream_of_def tx)
  have "ReadBytes CHR ''\<newline>'' (stream_of ?text) =
      (''>a'' @ ''\<newline>'', None, (stream_of ?text)\<lparr>unread := ?t1\<rparr>)"
    by (rule ReadBytes_line) (simp_all add: stream_of_def tx)
  then have nx0: "fasta_Next ?g0 = (True, ?g1)"
    by (simp add: fasta_Next_def new_fastFastaReader_def)
  have nx1: "fasta_Next ?g1 = (True, ?g1)"
    by (simp add: fasta_Next_def new_fastFastaReader_def)
  have id1: "fasta_Identifier ?g1 = Inr ''a''"
    by (simp add: fasta_Identifier_def)
  have "fasta_Sequence_loop ?g1 [] = fasta_Sequence_loop ?g1a ([] @ [])"
    by (rule fasta_Sequence_loop_line) (simp_all add: defaultBufSize_def)
  also have "\<dots> = ([], ?g2)"
    using fasta_Sequence_loop_header_line [of ?g1a ?X ?t3 "[]"]
    by (simp add: defaultBufSize_def)
  finally have sq1: "fasta_Sequence_loop ?g1 [] = ([], ?g2)" .
  have nx2: "fasta_Next ?g2 = (True, ?g2)"
    by (simp add: fasta_Next_def new_fastFastaReader_def)
  have id2: "fasta_Identifier ?g2 = Inr (replicate 4094 CHR ''x'')"
    by (simp add: fasta_Identifier_def)
  have "fasta_Sequence_loop ?g2 [] = fasta_Sequence_loop ?g2a ([] @ ?Y)"
    by (rule fasta_Sequence_loop_line) (simp_all add: defaultBufSize_def)
  also have "\<dots> = (?Y, ?g3)"
    using fasta_Sequence_loop_header_line [of ?g2a "''>''" "[]" ?Y]
    by (simp add: defaultBufSize_def)
  finally have sq2: "fasta_Sequence_loop ?g2 [] = (?Y, ?g3)" .
  have nx3: "fasta_Next ?g3 = (True, ?g3)"
    by (simp add: fasta_Next_def new_fastFastaReader_def)
  have id3: "fasta_Identifier ?g3 = Inr []"
    by (simp add: fasta_Identifier_def)
  have sq3: "fasta_Sequence_loop ?g3 [] = ([], ?g4)"
    using fasta_Sequence_loop_at_end [of ?g3 "[]"]
    by (simp add: new_fastFastaReader_def stream_of_def)
  have fin: "fasta_records ?g4 = Inr ([], ?g4\<lparr>fileClosed := True\<rparr>)"
    by (rule fasta_records_at_end) simp
  have "fasta_records ?g3 = Inr ([\<lparr>Identifier = [], Sequence = []\<rparr>], ?g4\<lparr>fileClosed := True\<rparr>)"
    using fasta_records_step [OF nx3 id3 sq3] fin by simp
  then have "fasta_records ?g2 =
      Inr ([\<lparr>Identifier = replicate 4094 CHR ''x'', Sequence = ?Y\<rparr>,
            \<lparr>Identifier = [], Sequence = []\<rparr>], ?g4\<lparr>fileClosed := True\<rparr>)"
    using fasta_records_step [OF nx2 id2 sq2] by simp
  then have "fasta_records ?g1 =
      Inr ([\<lparr>Identifier = ''a'', Sequence = []\<rparr>,
            \<lparr>Identifier = replicate 4094 CHR ''x'', Sequence = ?Y\<rparr>,
            \<lparr>Identifier = [], Sequence = []\<rparr>], ?g4\<lparr>fileClosed := True\<rparr>)"
    using fasta_records_step [OF nx1 id1 sq1] by simp
  then show ?thesis
    by (simp add: convertFile_def op fasta_records_Next [OF nx0] after_loop_def fasta_Err_def)
qed

text \<open>
  Claim C7 as stated fails in two ways. A sequence line that holds the marker at a
  position the writer wraps at: the 81-byte line of 80 times \<open>A\<close> followed by \<open>>\<close>
  decodes to one record, is written as two lines, the second being \<open>>\<close>, and decodes
  again to two records. And a header line longer than the buffer: the decoder cuts the
  header after 4096 bytes and reads its rest as sequence data, here 80 times \<open>y\<close> and a
  \<open>>\<close>, which the writer again puts at the start of a line.
\<close>

theorem round_trip_fails:
  "convertFile (Inr (stream_of (text_of_lines [''>s'', replicate 80 CHR ''A'' @ ''>'']))) =
     Inr [\<lparr>Identifier = ''s'', Sequence = replicate 80 CHR ''A'' @ ''>''\<rparr>]
   \<and> convertFile (Inr (stream_of (seqWriter
       [\<lparr>Identifier = ''s'', Sequence = replicate 80 CHR ''A'' @ ''>''\<rparr>]))) =
     Inr [\<lparr>Identifier = ''s'', Sequence = replicate 80 CHR ''A''\<rparr>,
          \<lparr>Identifier = [], Sequence = []\<rparr>]
   \<and> convertFile (Inr (stream_of (text_of_lines long_header_example))) = Inr long_header_records
   \<and> convertFile (Inr (stream_of (seqWriter long_header_records))) =
     Inr [\<lparr>Identifier = ''a'', Sequence = []\<rparr>,
          \<lparr>Identifier = replicate 4094 CHR ''x'', Sequence = replicate 80 CHR ''y''\<rparr>,
          \<lparr>Identifier = [], Sequence = []\<rparr>]"
proof -
  have 1: "convertFile (Inr (stream_of (text_of_lines [''>s'', replicate 80 CHR ''A'' @ ''>'']))) =
     Inr [\<lparr>Identifier = ''s'', Sequence = replicate 80 CHR ''A'' @ ''>''\<rparr>]"
    by code_simp
  have 2: "convertFile (Inr (stream_of (seqWriter
       [\<lparr>Identifier = ''s'', Sequence = replicate 80 CHR ''A'' @ ''>''\<rparr>]))) =
     Inr [\<lparr>Identifier = ''s'', Sequence = replicate 80 CHR ''A''\<rparr>,
          \<lparr>Identifier = [], Sequence = []\<rparr>]"
    by code_simp
  from 1 2 long_header_first_decoding long_header_second_decoding show ?thesis
    by blast
qed

end
